theory Spec2Isabelle
  imports Complex_Main "HOL-Library.Multiset"
begin

section \<open>Retry policy (NSFWTaggerClient.retryRequest, ErrorHandler.retryOperation)\<close>

text \<open>
  JavaScript numbers are modelled as \<open>real\<close> (delays, jitter) and as \<open>nat\<close> (attempt
  numbers, counters); IEEE rounding is not modelled. A \<open>throw\<close> carries either an error
  value or, for \<open>throw lastError\<close> before any failure was stored, \<open>undefined\<close>.
\<close>

datatype 'e thrown = Undefined | Thrown 'e

text \<open>
  What a run of the retry loop does, in order: the wrapped operation is called, its promise
  settles, the caller is suspended by \<open>setTimeout\<close> for a delay in milliseconds.
\<close>

datatype event = Call nat | Return nat | Sleep real

text \<open>
  The wrapped operation is a state transformer on the world it talks to: it fails with
  \<open>Inl\<close> (a rejected promise) or succeeds with \<open>Inr\<close>. \<open>rnd k\<close> is the value
  \<open>Math.random()\<close> returns on attempt \<open>k\<close>.

  The loop \<open>for (attempt = 1; attempt <= maxRetries; attempt++)\<close> of \<open>retryRequest\<close>;
  \<open>retryOperation\<close> has the same body.
\<close>

function retryLoop ::
  "('w \<Rightarrow> ('e + 'a) \<times> 'w) \<Rightarrow> nat \<Rightarrow> real \<Rightarrow> (nat \<Rightarrow> real) \<Rightarrow> nat \<Rightarrow> 'e thrown \<Rightarrow> 'w
     \<Rightarrow> ('e thrown + 'a) \<times> 'w \<times> event list" where
  "retryLoop requestFn maxRetries baseDelay rnd attempt lastError w =
     (if attempt \<le> maxRetries then
        (case requestFn w of
           (Inr v, w') \<Rightarrow> (Inr v, w', [Call attempt, Return attempt])
         | (Inl e, w') \<Rightarrow>
             (if attempt = maxRetries then (Inl (Thrown e), w', [Call attempt, Return attempt])
              else (case retryLoop requestFn maxRetries baseDelay rnd (Suc attempt) (Thrown e) w' of
                      (r, w'', tr) \<Rightarrow>
                        (r, w'',
                         Call attempt # Return attempt #
                         Sleep (baseDelay * 2 ^ (attempt - 1) + rnd attempt * 1000) # tr))))
      else (Inl lastError, w, []))"
  by pat_completeness auto
termination
  by (relation "measure (\<lambda>(f, m, b, r, a, l, w). Suc m - a)") auto

declare retryLoop.simps [simp del]

definition retryRequest ::
  "('w \<Rightarrow> ('e + 'a) \<times> 'w) \<Rightarrow> nat \<Rightarrow> real \<Rightarrow> (nat \<Rightarrow> real) \<Rightarrow> 'w
     \<Rightarrow> ('e thrown + 'a) \<times> 'w \<times> event list" where
  "retryRequest requestFn maxRetries baseDelay rnd w =
     retryLoop requestFn maxRetries baseDelay rnd 1 Undefined w"

definition retryOperation ::
  "('w \<Rightarrow> ('e + 'a) \<times> 'w) \<Rightarrow> nat \<Rightarrow> real \<Rightarrow> (nat \<Rightarrow> real) \<Rightarrow> 'w
     \<Rightarrow> ('e thrown + 'a) \<times> 'w \<times> event list" where
  "retryOperation operation maxRetries baseDelay rnd w =
     retryLoop operation maxRetries baseDelay rnd 1 Undefined w"

text \<open>Reading a trace: the invocations, the sleeps, and how many invocations are open.\<close>

fun invocations :: "event list \<Rightarrow> nat" where
  "invocations [] = 0"
| "invocations (Call k # es) = Suc (invocations es)"
| "invocations (e # es) = invocations es"

fun sleeps_of :: "event list \<Rightarrow> real list" where
  "sleeps_of [] = []"
| "sleeps_of (Sleep d # es) = d # sleeps_of es"
| "sleeps_of (e # es) = sleeps_of es"

fun peak :: "nat \<Rightarrow> event list \<Rightarrow> nat" where
  "peak cur [] = cur"
| "peak cur (Call k # es) = max cur (peak (Suc cur) es)"
| "peak cur (Return k # es) = max cur (peak (cur - 1) es)"
| "peak cur (Sleep d # es) = peak cur es"

text \<open>
  The trace of attempts \<open>a\<close> to \<open>n\<close> when every attempt before \<open>n\<close> fails: each failed
  attempt is followed by its backoff sleep, the last attempt by nothing.
\<close>

definition backoff_trace :: "real \<Rightarrow> (nat \<Rightarrow> real) \<Rightarrow> nat \<Rightarrow> nat \<Rightarrow> event list" where
  "backoff_trace baseDelay rnd a n =
     concat (map (\<lambda>k. [Call k, Return k, Sleep (baseDelay * 2 ^ (k - 1) + rnd k * 1000)]) [a..<n])
     @ [Call n, Return n]"

text \<open>\<open>ErrorHandler.getRetryDelay\<close>, the only place of the source with a \<open>maxDelay\<close>.
  \<open>Math.pow(2, attempt - 1)\<close> has a negative exponent at attempt 0.\<close>

definition getRetryDelay :: "nat \<Rightarrow> real \<Rightarrow> real \<Rightarrow> real \<Rightarrow> int" where
  "getRetryDelay attempt baseDelay maxDelay random =
     (let delay = min maxDelay (baseDelay * 2 powi (int attempt - 1));
          jitter = random * 1000
      in \<lfloor>delay + jitter\<rfloor>)"

definition no_jitter :: "nat \<Rightarrow> real" where
  "no_jitter k = 0"

section \<open>Error classification (ErrorHandler)\<close>

text \<open>
  An error object with the fields the classifier reads. A missing field is \<open>None\<close>;
  an empty string and the number 0 are falsy, as in JavaScript.
\<close>

record js_error =
  code :: "string option"
  status :: "nat option"
  name :: "string option"
  message :: string

fun toString :: "nat \<Rightarrow> string" where
  "toString n =
     (if n < 10 then [''0123456789'' ! n]
      else toString (n div 10) @ [''0123456789'' ! (n mod 10)])"

declare toString.simps [simp del]

fun includes_str :: "string \<Rightarrow> string \<Rightarrow> bool" where
  "includes_str [] t = (t = [])"
| "includes_str (c # cs) t = (take (length t) (c # cs) = t \<or> includes_str cs t)"

definition truthy :: "string option \<Rightarrow> bool" where
  "truthy s = (case s of None \<Rightarrow> False | Some v \<Rightarrow> v \<noteq> [])"

definition getErrorCode :: "js_error \<Rightarrow> string" where
  "getErrorCode error =
     (if truthy (code error) then the (code error)
      else if status error \<noteq> None \<and> status error \<noteq> Some 0 then toString (the (status error))
      else if truthy (name error) then the (name error)
      else ''UNKNOWN_ERROR'')"

definition isRetryableError :: "js_error \<Rightarrow> bool" where
  "isRetryableError error =
     (let retryableCodes =
        [''NETWORK_ERROR'', ''TIMEOUT'', ''CONNECTION_REFUSED'', ''ECONNRESET'', ''ENETUNREACH'',
         ''ECONNABORTED'', ''500'', ''502'', ''503'', ''504''];
          errorCode = getErrorCode error
      in errorCode \<in> set retryableCodes \<or> includes_str (message error) ''timeout''
         \<or> includes_str (message error) ''network'')"

definition shouldRetry :: "js_error \<Rightarrow> bool" where
  "shouldRetry error =
     (let nonRetryableCodes =
        [''VALIDATION_ERROR'', ''AUTHENTICATION_ERROR'', ''PERMISSION_DENIED'', ''NOT_FOUND'',
         ''400'', ''401'', ''403'', ''404''];
          errorCode = getErrorCode error
      in if errorCode \<in> set nonRetryableCodes then False else isRetryableError error)"

text \<open>An operation that always fails with HTTP 404, and one that always fails with 500.\<close>

definition err404 :: js_error where
  "err404 = \<lparr>code = None, status = Some 404, name = Some ''Error'', message = ''Not Found''\<rparr>"

definition always404 :: "unit \<Rightarrow> (js_error + unit) \<times> unit" where
  "always404 w = (Inl err404, ())"

definition err500 :: js_error where
  "err500 = \<lparr>code = None, status = Some 500, name = Some ''Error'',
             message = ''Internal Server Error''\<rparr>"

definition always500 :: "unit \<Rightarrow> (js_error + unit) \<times> unit" where
  "always500 w = (Inl err500, ())"

section \<open>Batch processor (BatchProcessor.jsx)\<close>

datatype item_type = Scenes | Images

text \<open>The body of a processing response: \<open>result.tags\<close> and \<open>result.markers\<close>
  (an absent field is the empty list; \<open>marker.tags || []\<close> likewise).\<close>

record marker =
  title :: string
  seconds :: real
  marker_tags :: "string list"

record analysis =
  tags :: "string list"
  markers :: "marker list"

text \<open>
  An entry of \<open>state.results\<close> or \<open>state.errors\<close>: \<open>{id, success: true, result}\<close> or
  \<open>{id, success: false, error: error.message}\<close>.
\<close>

datatype 'r outcome = Succeeded string 'r | Failed string string

fun oid :: "'r outcome \<Rightarrow> string" where
  "oid (Succeeded i r) = i"
| "oid (Failed i msg) = i"

fun success :: "'r outcome \<Rightarrow> bool" where
  "success (Succeeded i r) = True"
| "success (Failed i msg) = False"

record progress =
  current :: nat
  total :: nat
  completed :: nat
  failed :: nat
  pstatus :: string

record 'r ui_state =
  selectedItems :: "string list"
  itype :: item_type
  processing :: bool
  progress :: progress
  results :: "'r outcome list"
  errors :: "'r outcome list"

text \<open>
  \<open>createBatches\<close>: the loop \<open>for (i = 0; i < items.length; i += batchSize)\<close>. With
  \<open>batchSize = 0\<close> and a non-empty list the loop never ends; not returning is \<open>None\<close>.
\<close>

partial_function (option) createBatches_loop ::
  "'a list \<Rightarrow> nat \<Rightarrow> nat \<Rightarrow> 'a list list \<Rightarrow> 'a list list option" where
  "createBatches_loop items batchSize i batches =
     (if i < length items
      then createBatches_loop items batchSize (i + batchSize)
             (batches @ [take batchSize (drop i items)])
      else Some batches)"

declare createBatches_loop.simps [code]

definition createBatches :: "'a list \<Rightarrow> nat \<Rightarrow> 'a list list option" where
  "createBatches items batchSize = createBatches_loop items batchSize 0 []"

text \<open>The closed form of the batches: consecutive chunks of \<open>n\<close> items.\<close>

function chunks :: "nat \<Rightarrow> 'a list \<Rightarrow> 'a list list" where
  "chunks n xs = (if n = 0 \<or> xs = [] then [] else take n xs # chunks n (drop n xs))"
  by pat_completeness auto
termination
  by (relation "measure (\<lambda>(n, xs). length xs)") auto

declare chunks.simps [simp del]

text \<open>
  What the dispatcher does, in order: \<open>processItem\<close> is started for an item, the
  \<open>Promise.all\<close> of a batch settles, the Cancel button's handler runs.
\<close>

datatype bevent = Started string | BatchSettled "string list" | CancelClicked

text \<open>
  One batch: \<open>batch.map(itemId => processItem(itemId, type).catch(...))\<close> and
  \<open>await Promise.all(promises)\<close>. \<open>pitem\<close> is \<open>processItem\<close>: it throws an error message
  (\<open>Inl\<close>) or returns the result. The outcomes come in the order of the batch. The effects of
  the items of one batch on the world are taken in the order of the batch; the interleaving of
  their requests is not modelled.
\<close>

fun runBatch ::
  "(string \<Rightarrow> item_type \<Rightarrow> 'w \<Rightarrow> (string + 'r) \<times> 'w) \<Rightarrow> item_type \<Rightarrow> string list \<Rightarrow> 'w
     \<Rightarrow> 'r outcome list \<times> 'w" where
  "runBatch pitem type [] w = ([], w)"
| "runBatch pitem type (itemId # rest) w =
     (case pitem itemId type w of
        (r, w1) \<Rightarrow>
          (case runBatch pitem type rest w1 of
             (os, w2) \<Rightarrow>
               ((case r of Inr res \<Rightarrow> Succeeded itemId res | Inl msg \<Rightarrow> Failed itemId msg) # os,
                w2)))"

text \<open>The \<open>setState\<close> after a batch.\<close>

definition recordBatch :: "'r outcome list \<Rightarrow> 'r ui_state \<Rightarrow> 'r ui_state" where
  "recordBatch rs prevState =
     (let successful = filter success rs;
          failedRs = filter (\<lambda>r. \<not> success r) rs
      in prevState\<lparr>
           results := results prevState @ successful,
           errors := errors prevState @ failedRs,
           progress := (progress prevState)\<lparr>
             completed := completed (progress prevState) + length successful,
             failed := failed (progress prevState) + length failedRs\<rparr>\<rparr>)"

text \<open>
  \<open>cancelProcessing\<close>: the request to the container (\<open>cancelReq\<close>, which never throws), then
  the \<open>setState\<close> below. It sets no flag that \<open>processItems\<close> reads.
\<close>

definition cancelProcessing :: "'r ui_state \<Rightarrow> 'r ui_state" where
  "cancelProcessing st =
     st\<lparr>processing := False,
        progress := \<lparr>current = 0, total = 0, completed = 0, failed = 0, pstatus = ''cancelled''\<rparr>\<rparr>"

text \<open>
  \<open>processItems\<close>: the loop over the batches. \<open>cancelAt = Some k\<close> says that the user
  clicks Cancel while batch \<open>k\<close> is in flight (the only points where a handler can run are the
  awaits); \<open>None\<close> that nobody clicks. The result is the list of states after each
  \<open>setState\<close>, the events and the final world. Of the handlers that can run at an
  await only Cancel is modelled: the one-second timer that increments \<open>progress.current\<close>
  is left out, and so is \<open>loadItems\<close> (Refresh and the mode, type, limit and days
  controls stay enabled during a run), which overwrites \<open>progress.total\<close>.
\<close>

fun processBatches ::
  "(string \<Rightarrow> item_type \<Rightarrow> 'w \<Rightarrow> (string + 'r) \<times> 'w) \<Rightarrow> ('w \<Rightarrow> 'w) \<Rightarrow> nat option \<Rightarrow> item_type
     \<Rightarrow> nat \<Rightarrow> string list list \<Rightarrow> 'w \<Rightarrow> 'r ui_state
     \<Rightarrow> 'r ui_state list \<times> bevent list \<times> 'w" where
  "processBatches pitem cancelReq cancelAt type k [] w st = ([], [], w)"
| "processBatches pitem cancelReq cancelAt type k (batch # rest) w st =
     (case runBatch pitem type batch w of
        (rs, w1) \<Rightarrow>
          (let clicked = (cancelAt = Some k);
               st1 = (if clicked then cancelProcessing st else st);
               w2 = (if clicked then cancelReq w1 else w1);
               st2 = recordBatch rs st1
           in case processBatches pitem cancelReq cancelAt type (Suc k) rest w2 st2 of
                (sts, evs, w3) \<Rightarrow>
                  ((if clicked then [st1] else []) @ st2 # sts,
                   map Started batch @ (if clicked then [CancelClicked] else [])
                     @ BatchSettled batch # evs,
                   w3)))"

definition processItems ::
  "(string \<Rightarrow> item_type \<Rightarrow> 'w \<Rightarrow> (string + 'r) \<times> 'w) \<Rightarrow> ('w \<Rightarrow> 'w) \<Rightarrow> nat option \<Rightarrow> nat option
     \<Rightarrow> string list \<Rightarrow> item_type \<Rightarrow> 'w \<Rightarrow> 'r ui_state
     \<Rightarrow> ('r ui_state list \<times> bevent list \<times> 'w) option" where
  "processItems pitem cancelReq cancelAt concurrency_setting itemIds type w st =
     (let concurrency = (case concurrency_setting of None \<Rightarrow> 4 | Some c \<Rightarrow> c)
      in case createBatches itemIds concurrency of
           None \<Rightarrow> None
         | Some batches \<Rightarrow> Some (processBatches pitem cancelReq cancelAt type 0 batches w st))"

text \<open>
  \<open>startProcessing\<close>: it alerts and returns when nothing is selected or the connection does
  not validate (\<open>validate\<close> returns the error); otherwise it resets the progress, runs
  \<open>processItems\<close> and clears \<open>processing\<close>. A run yields every state it went through.
\<close>

datatype ('w, 'r) run = Alerted string "'r ui_state" 'w | Ran "'r ui_state list" "bevent list" 'w

definition startProcessing ::
  "('w \<Rightarrow> string option \<times> 'w) \<Rightarrow> (string \<Rightarrow> item_type \<Rightarrow> 'w \<Rightarrow> (string + 'r) \<times> 'w) \<Rightarrow> ('w \<Rightarrow> 'w)
     \<Rightarrow> nat option \<Rightarrow> nat option \<Rightarrow> 'w \<Rightarrow> 'r ui_state \<Rightarrow> ('w, 'r) run option" where
  "startProcessing validate pitem cancelReq cancelAt concurrency_setting w st =
     (if selectedItems st = [] then Some (Alerted ''Please select at least one item to process'' st w)
      else
        (case validate w of
           (Some err, w1) \<Rightarrow> Some (Alerted (''Connection validation failed: '' @ err) st w1)
         | (None, w1) \<Rightarrow>
             (let st0 = st\<lparr>
                    processing := True,
                    progress := \<lparr>current = 0, total = length (selectedItems st), completed = 0,
                                 failed = 0, pstatus = ''processing''\<rparr>,
                    results := [],
                    errors := []\<rparr>
              in case processItems pitem cancelReq cancelAt concurrency_setting
                        (selectedItems st) (itype st) w1 st0 of
                   None \<Rightarrow> None
                 | Some (sts, evs, w2) \<Rightarrow>
                     Some (Ran (st0 # sts @ [(last (st0 # sts))\<lparr>processing := False\<rparr>]) evs w2))))"

text \<open>
  \<open>getProgressPercentage\<close> divides and multiplies in IEEE binary64. \<open>binary64 x\<close> is the
  double nearest to \<open>x\<close>: 53 significant bits, ties to the even significand. Overflow and
  subnormal numbers are not modelled; the counters are lengths of arrays, below \<open>2^32\<close>,
  so they are doubles themselves and their quotient and its product with 100 are in the normal
  range. \<open>Math.round\<close> rounds its argument exactly, halves upwards.
\<close>

definition round_even :: "real \<Rightarrow> int" where
  "round_even z =
     (let f = \<lfloor>z\<rfloor>; d = z - of_int f
      in if d < 1 / 2 then f else if 1 / 2 < d then f + 1 else if even f then f else f + 1)"

definition ulp_exp :: "real \<Rightarrow> int" where
  "ulp_exp x = \<lfloor>log 2 \<bar>x\<bar>\<rfloor> - 52"

definition binary64 :: "real \<Rightarrow> real" where
  "binary64 x =
     (if x = 0 then 0
      else of_int (round_even (x / 2 powi ulp_exp x)) * 2 powi ulp_exp x)"

definition Math_round :: "real \<Rightarrow> int" where
  "Math_round x = \<lfloor>x + 1 / 2\<rfloor>"

definition getProgressPercentage :: "'r ui_state \<Rightarrow> int" where
  "getProgressPercentage st =
     (if total (progress st) = 0 then 0
      else Math_round
             (binary64 (binary64 (real (completed (progress st)) / real (total (progress st)))
                        * 100)))"

text \<open>The handlers that build the selection.\<close>

definition handleSelectItem :: "string \<Rightarrow> string list \<Rightarrow> string list" where
  "handleSelectItem itemId selection =
     (if itemId \<in> set selection then filter (\<lambda>id. id \<noteq> itemId) selection
      else selection @ [itemId])"

section \<open>Catalog client (stash_client.js)\<close>

text \<open>
  Modelled from the spec: the catalog service is an external collaborator with no code in the
  repository. Section 6 of the specification gives its interface: find a tag by name,
  find-or-create a tag by name, bulk-attach tags to an item with \<open>mode = ADD\<close>, create a
  scene marker (title, offset in seconds, tag ids). Sections 4.3 and 9 give its contract:
  catalog writes are idempotent; creating a tag whose name exists creates no duplicate, and
  a marker re-submitted with identical title and offset creates no duplicate marker. The
  model is the store that these words describe: a lookup returns the tag of that name, a
  tag creation returns the tag of that name when there is one and adds one otherwise, a
  marker creation adds the marker unless the scene holds one with that title and offset,
  \<open>ADD\<close> is a union. Every request is logged. \<open>faulty hist q\<close> says whether the catalog
  rejects request \<open>q\<close> after the requests \<open>hist\<close> (with the message of the error); a
  rejected request changes nothing but the log.
\<close>

datatype gql =
    FindTag string
  | CreateTag string
  | BulkSceneUpdate string "nat list"
  | BulkImageUpdate string "nat list"
  | CreateSceneMarker string string real "nat list"

datatype gdata = TagFound "(nat \<times> string) option" | TagCreated nat | Updated | MarkerCreated

record catalog =
  cat_tags :: "(nat \<times> string) list"
  scene_tags :: "string \<Rightarrow> nat set"
  image_tags :: "string \<Rightarrow> nat set"
  scene_markers :: "(string \<times> string \<times> real \<times> nat list) list"
  requests :: "gql list"

text \<open>What identifies a marker: the scene, the title and the offset.\<close>

fun marker_key :: "string \<times> string \<times> real \<times> nat list \<Rightarrow> string \<times> string \<times> real" where
  "marker_key (s, t, secs, ids) = (s, t, secs)"

fun perform :: "gql \<Rightarrow> catalog \<Rightarrow> gdata \<times> catalog" where
  "perform (FindTag n) c = (TagFound (find (\<lambda>t. snd t = n) (cat_tags c)), c)"
| "perform (CreateTag n) c =
     (case find (\<lambda>t. snd t = n) (cat_tags c) of
        Some t \<Rightarrow> (TagCreated (fst t), c)
      | None \<Rightarrow>
          (let i = Suc (fold max (map fst (cat_tags c)) 0)
           in (TagCreated i, c\<lparr>cat_tags := cat_tags c @ [(i, n)]\<rparr>)))"
| "perform (BulkSceneUpdate s ids) c =
     (Updated, c\<lparr>scene_tags := (scene_tags c)(s := scene_tags c s \<union> set ids)\<rparr>)"
| "perform (BulkImageUpdate s ids) c =
     (Updated, c\<lparr>image_tags := (image_tags c)(s := image_tags c s \<union> set ids)\<rparr>)"
| "perform (CreateSceneMarker s t secs ids) c =
     (if (s, t, secs) \<in> set (map marker_key (scene_markers c)) then (MarkerCreated, c)
      else (MarkerCreated, c\<lparr>scene_markers := scene_markers c @ [(s, t, secs, ids)]\<rparr>))"

text \<open>\<open>StashClient.graphql\<close>: a failed request throws an error with a message.\<close>

definition graphql ::
  "(gql list \<Rightarrow> gql \<Rightarrow> string option) \<Rightarrow> gql \<Rightarrow> catalog \<Rightarrow> (string + gdata) \<times> catalog" where
  "graphql faulty q c =
     (let c1 = c\<lparr>requests := requests c @ [q]\<rparr>
      in case faulty (requests c) q of
           Some msg \<Rightarrow> (Inl msg, c1)
         | None \<Rightarrow> (case perform q c1 of (d, c2) \<Rightarrow> (Inr d, c2)))"

definition getTagByName ::
  "(gql list \<Rightarrow> gql \<Rightarrow> string option) \<Rightarrow> string \<Rightarrow> catalog \<Rightarrow> (nat \<times> string) option \<times> catalog" where
  "getTagByName faulty tagName c =
     (case graphql faulty (FindTag tagName) c of
        (Inr (TagFound t), c1) \<Rightarrow> (t, c1)
      | (_, c1) \<Rightarrow> (None, c1))"

definition createTagIfNotExists ::
  "(gql list \<Rightarrow> gql \<Rightarrow> string option) \<Rightarrow> string \<Rightarrow> catalog \<Rightarrow> nat option \<times> catalog" where
  "createTagIfNotExists faulty tagName c =
     (case getTagByName faulty tagName c of
        (Some existingTag, c1) \<Rightarrow> (Some (fst existingTag), c1)
      | (None, c1) \<Rightarrow>
          (case graphql faulty (CreateTag tagName) c1 of
             (Inr (TagCreated i), c2) \<Rightarrow> (Some i, c2)
           | (_, c2) \<Rightarrow> (None, c2)))"

definition addTagsToScene ::
  "(gql list \<Rightarrow> gql \<Rightarrow> string option) \<Rightarrow> string \<Rightarrow> nat list \<Rightarrow> catalog \<Rightarrow> string option \<times> catalog" where
  "addTagsToScene faulty sceneId tagIds c =
     (case graphql faulty (BulkSceneUpdate sceneId tagIds) c of
        (Inl msg, c1) \<Rightarrow> (Some msg, c1)
      | (Inr d, c1) \<Rightarrow> (None, c1))"

definition addTagsToImage ::
  "(gql list \<Rightarrow> gql \<Rightarrow> string option) \<Rightarrow> string \<Rightarrow> nat list \<Rightarrow> catalog \<Rightarrow> string option \<times> catalog" where
  "addTagsToImage faulty imageId tagIds c =
     (case graphql faulty (BulkImageUpdate imageId tagIds) c of
        (Inl msg, c1) \<Rightarrow> (Some msg, c1)
      | (Inr d, c1) \<Rightarrow> (None, c1))"

text \<open>The loop of \<open>createSceneMarker\<close> that resolves the marker's tag names.\<close>

fun markerTagIds ::
  "(gql list \<Rightarrow> gql \<Rightarrow> string option) \<Rightarrow> string list \<Rightarrow> nat list \<Rightarrow> catalog \<Rightarrow> nat list \<times> catalog" where
  "markerTagIds faulty [] tagIds c = (tagIds, c)"
| "markerTagIds faulty (tagName # rest) tagIds c =
     (case getTagByName faulty tagName c of
        (Some tag, c1) \<Rightarrow> markerTagIds faulty rest (tagIds @ [fst tag]) c1
      | (None, c1) \<Rightarrow> markerTagIds faulty rest tagIds c1)"

definition createSceneMarker ::
  "(gql list \<Rightarrow> gql \<Rightarrow> string option) \<Rightarrow> string \<Rightarrow> string \<Rightarrow> real \<Rightarrow> string list \<Rightarrow> catalog
     \<Rightarrow> string option \<times> catalog" where
  "createSceneMarker faulty sceneId mtitle secs tagNames c =
     (case markerTagIds faulty tagNames [] c of
        (tagIds, c1) \<Rightarrow>
          (case graphql faulty (CreateSceneMarker sceneId mtitle secs tagIds) c1 of
             (Inl msg, c2) \<Rightarrow> (Some msg, c2)
           | (Inr d, c2) \<Rightarrow> (None, c2)))"

section \<open>Result applier (BatchProcessor.applyResultsToStash)\<close>

text \<open>The loop over \<open>result.tags\<close>, collecting the ids that are not null.\<close>

fun createTags ::
  "(gql list \<Rightarrow> gql \<Rightarrow> string option) \<Rightarrow> string list \<Rightarrow> nat list \<Rightarrow> catalog \<Rightarrow> nat list \<times> catalog" where
  "createTags faulty [] tagIds c = (tagIds, c)"
| "createTags faulty (tagName # rest) tagIds c =
     (case createTagIfNotExists faulty tagName c of
        (Some tagId, c1) \<Rightarrow> createTags faulty rest (tagIds @ [tagId]) c1
      | (None, c1) \<Rightarrow> createTags faulty rest tagIds c1)"

text \<open>The loop over \<open>result.markers\<close>; the first error leaves the loop.\<close>

fun createMarkers ::
  "(gql list \<Rightarrow> gql \<Rightarrow> string option) \<Rightarrow> string \<Rightarrow> marker list \<Rightarrow> catalog \<Rightarrow> string option \<times> catalog" where
  "createMarkers faulty itemId [] c = (None, c)"
| "createMarkers faulty itemId (m # rest) c =
     (case createSceneMarker faulty itemId (title m) (seconds m) (marker_tags m) c of
        (Some msg, c1) \<Rightarrow> (Some msg, c1)
      | (None, c1) \<Rightarrow> createMarkers faulty itemId rest c1)"

text \<open>The two blocks of \<open>applyResultsToStash\<close>; \<open>Some msg\<close> is the error it rethrows.\<close>

definition applyTags ::
  "(gql list \<Rightarrow> gql \<Rightarrow> string option) \<Rightarrow> string \<Rightarrow> item_type \<Rightarrow> analysis \<Rightarrow> catalog
     \<Rightarrow> string option \<times> catalog" where
  "applyTags faulty itemId type result c =
     (if tags result \<noteq> [] then
        (case createTags faulty (tags result) [] c of
           (tagIds, c1) \<Rightarrow>
             (if tagIds \<noteq> [] then
                (if type = Scenes then addTagsToScene faulty itemId tagIds c1
                 else addTagsToImage faulty itemId tagIds c1)
              else (None, c1)))
      else (None, c))"

definition applyMarkers ::
  "(gql list \<Rightarrow> gql \<Rightarrow> string option) \<Rightarrow> string \<Rightarrow> item_type \<Rightarrow> analysis \<Rightarrow> catalog
     \<Rightarrow> string option \<times> catalog" where
  "applyMarkers faulty itemId type result c =
     (if type = Scenes \<and> markers result \<noteq> [] then createMarkers faulty itemId (markers result) c
      else (None, c))"

definition applyResultsToStash ::
  "(gql list \<Rightarrow> gql \<Rightarrow> string option) \<Rightarrow> string \<Rightarrow> item_type \<Rightarrow> analysis \<Rightarrow> catalog
     \<Rightarrow> string option \<times> catalog" where
  "applyResultsToStash faulty itemId type result c =
     (case applyTags faulty itemId type result c of
        (Some msg, c1) \<Rightarrow> (Some msg, c1)
      | (None, c1) \<Rightarrow> applyMarkers faulty itemId type result c1)"

section \<open>Container client (NSFWTaggerClient)\<close>

text \<open>
  Modelled from the spec: the processing container is an external collaborator (section 6:
  \<open>POST /process/scene\<close>, \<open>POST /process/image\<close>, \<open>GET /health\<close>, \<open>POST /cancel\<close>).
  \<open>container log r\<close> is its reply to request \<open>r\<close> after the requests \<open>log\<close>: an HTTP
  response (status, status text, body), a network failure, or no reply before the timeout.
  The options of the payload are not modelled.
\<close>

datatype creq = ProcessScene string | ProcessImage string | Health | TestLMStudio | Cancel

datatype reply = HttpReply nat string analysis | NetworkFailure string | NoReply

record world =
  container_log :: "creq list"
  catalog :: catalog

text \<open>\<open>request\<close>: throws on a response that is not ok, on a timeout and on a network error.\<close>

definition request ::
  "(creq list \<Rightarrow> creq \<Rightarrow> reply) \<Rightarrow> nat \<Rightarrow> creq \<Rightarrow> world \<Rightarrow> (string + analysis) \<times> world" where
  "request container timeout r w =
     (let w1 = w\<lparr>container_log := container_log w @ [r]\<rparr>
      in case container (container_log w) r of
           HttpReply st text body \<Rightarrow>
             (if 200 \<le> st \<and> st \<le> 299 then (Inr body, w1)
              else (Inl (''HTTP '' @ toString st @ '': '' @ text), w1))
         | NetworkFailure msg \<Rightarrow> (Inl msg, w1)
         | NoReply \<Rightarrow> (Inl (''Request timeout after '' @ toString timeout @ '' seconds''), w1))"

text \<open>
  The value \<open>processScene\<close> and \<open>processImage\<close> resolve to:
  \<open>{success: true, result: data, error: null}\<close> or
  \<open>{success: false, result: null, error: error.message}\<close>. They catch every error.
\<close>

datatype proc_result = ProcOk analysis | ProcFailed string

definition processScene ::
  "(creq list \<Rightarrow> creq \<Rightarrow> reply) \<Rightarrow> nat \<Rightarrow> string \<Rightarrow> world \<Rightarrow> proc_result \<times> world" where
  "processScene container timeout sceneId w =
     (case request container timeout (ProcessScene sceneId) w of
        (Inr d, w1) \<Rightarrow> (ProcOk d, w1)
      | (Inl msg, w1) \<Rightarrow> (ProcFailed msg, w1))"

definition processImage ::
  "(creq list \<Rightarrow> creq \<Rightarrow> reply) \<Rightarrow> nat \<Rightarrow> string \<Rightarrow> world \<Rightarrow> proc_result \<times> world" where
  "processImage container timeout imageId w =
     (case request container timeout (ProcessImage imageId) w of
        (Inr d, w1) \<Rightarrow> (ProcOk d, w1)
      | (Inl msg, w1) \<Rightarrow> (ProcFailed msg, w1))"

text \<open>
  \<open>processSceneWithRetry\<close> and \<open>processImageWithRetry\<close>: \<open>retryRequest\<close> around the call,
  with \<open>maxRetries = 3\<close> and the default \<open>baseDelay = 1000\<close>. The wrapped function returns
  what \<open>processScene\<close> resolves to, so it never rejects.
\<close>

definition processSceneWithRetry ::
  "(creq list \<Rightarrow> creq \<Rightarrow> reply) \<Rightarrow> nat \<Rightarrow> (nat \<Rightarrow> real) \<Rightarrow> string \<Rightarrow> world
     \<Rightarrow> (string thrown + proc_result) \<times> world \<times> event list" where
  "processSceneWithRetry container timeout rnd sceneId w =
     retryRequest (\<lambda>w0. case processScene container timeout sceneId w0 of (r, w1) \<Rightarrow> (Inr r, w1))
       3 1000 rnd w"

definition processImageWithRetry ::
  "(creq list \<Rightarrow> creq \<Rightarrow> reply) \<Rightarrow> nat \<Rightarrow> (nat \<Rightarrow> real) \<Rightarrow> string \<Rightarrow> world
     \<Rightarrow> (string thrown + proc_result) \<times> world \<times> event list" where
  "processImageWithRetry container timeout rnd imageId w =
     retryRequest (\<lambda>w0. case processImage container timeout imageId w0 of (r, w1) \<Rightarrow> (Inr r, w1))
       3 1000 rnd w"

text \<open>\<open>healthCheck\<close>, \<open>testLMStudioConnection\<close> and \<open>validateConnection\<close>; the client's
  \<open>cancelProcessing\<close>.\<close>

definition validateConnection ::
  "(creq list \<Rightarrow> creq \<Rightarrow> reply) \<Rightarrow> nat \<Rightarrow> world \<Rightarrow> string option \<times> world" where
  "validateConnection container timeout w =
     (case request container timeout Health w of
        (Inl msg, w1) \<Rightarrow> (Some (''Container not reachable: '' @ msg), w1)
      | (Inr d, w1) \<Rightarrow>
          (case request container timeout TestLMStudio w1 of
             (Inl msg, w2) \<Rightarrow> (Some (''LMStudio not connected: '' @ msg), w2)
           | (Inr d2, w2) \<Rightarrow> (None, w2)))"

definition cancelRequest :: "(creq list \<Rightarrow> creq \<Rightarrow> reply) \<Rightarrow> nat \<Rightarrow> world \<Rightarrow> world" where
  "cancelRequest container timeout w = snd (request container timeout Cancel w)"

section \<open>One item (BatchProcessor.processItem)\<close>

text \<open>
  The retry wrapper's own rejection cannot occur here (the wrapped call never rejects and
  \<open>maxRetries = 3\<close>); the branch is kept for totality.
\<close>

definition processItem ::
  "(creq list \<Rightarrow> creq \<Rightarrow> reply) \<Rightarrow> nat \<Rightarrow> (gql list \<Rightarrow> gql \<Rightarrow> string option) \<Rightarrow> (nat \<Rightarrow> real)
     \<Rightarrow> string \<Rightarrow> item_type \<Rightarrow> world \<Rightarrow> (string + analysis) \<times> world" where
  "processItem container timeout faulty rnd itemId type w =
     (case (if type = Scenes then processSceneWithRetry container timeout rnd itemId w
            else processImageWithRetry container timeout rnd itemId w) of
        (Inl t, w1, tr) \<Rightarrow> (Inl (case t of Thrown msg \<Rightarrow> msg | Undefined \<Rightarrow> []), w1)
      | (Inr (ProcFailed err), w1, tr) \<Rightarrow>
          (Inl (if err \<noteq> [] then err else ''Processing failed''), w1)
      | (Inr (ProcOk res), w1, tr) \<Rightarrow>
          (case applyResultsToStash faulty itemId type res (catalog w1) of
             (Some msg, c1) \<Rightarrow> (Inl msg, w1\<lparr>catalog := c1\<rparr>)
           | (None, c1) \<Rightarrow> (Inr res, w1\<lparr>catalog := c1\<rparr>)))"

section \<open>Concrete inputs\<close>

text \<open>Reading a run.\<close>

fun run_events :: "('w, 'r) run \<Rightarrow> bevent list" where
  "run_events (Ran sts evs w) = evs"
| "run_events (Alerted msg st w) = []"

fun run_states :: "('w, 'r) run \<Rightarrow> 'r ui_state list" where
  "run_states (Ran sts evs w) = sts"
| "run_states (Alerted msg st w) = [st]"

fun run_world :: "('w, 'r) run \<Rightarrow> 'w" where
  "run_world (Ran sts evs w) = w"
| "run_world (Alerted msg st w) = w"

definition final_progress :: "('w, 'r) run \<Rightarrow> progress" where
  "final_progress r = progress (last (run_states r))"

definition final_errors :: "('w, 'r) run \<Rightarrow> 'r outcome list" where
  "final_errors r = errors (last (run_states r))"

definition final_results :: "('w, 'r) run \<Rightarrow> 'r outcome list" where
  "final_results r = results (last (run_states r))"

text \<open>A state with a selection, as \<open>loadItems\<close> and the selection handlers leave it; a
  connection that validates; an item processor that fails on item 2 only.\<close>

definition selected :: "string list \<Rightarrow> 'r ui_state" where
  "selected ids =
     \<lparr>selectedItems = ids, itype = Scenes, processing = False,
      progress = \<lparr>current = 0, total = length ids, completed = 0, failed = 0, pstatus = ''idle''\<rparr>,
      results = [], errors = []\<rparr>"

definition counters :: "'r ui_state \<Rightarrow> nat \<times> nat \<times> nat" where
  "counters st = (completed (progress st), failed (progress st), total (progress st))"

text \<open>A state in which 23 of 40 items are completed.\<close>

definition done_23_of_40 :: "unit ui_state" where
  "done_23_of_40 =
     \<lparr>selectedItems = [], itype = Scenes, processing = True,
      progress = \<lparr>current = 0, total = 40, completed = 23, failed = 0, pstatus = ''processing''\<rparr>,
      results = [], errors = []\<rparr>"

definition always_valid :: "'w \<Rightarrow> string option \<times> 'w" where
  "always_valid w = (None, w)"

definition fails_on_2 :: "string \<Rightarrow> item_type \<Rightarrow> unit \<Rightarrow> (string + unit) \<times> unit" where
  "fails_on_2 itemId type w = (if itemId = ''2'' then (Inl ''Processing failed'', ()) else (Inr (), ()))"

definition no_remote_cancel :: "unit \<Rightarrow> unit" where
  "no_remote_cancel w = w"

text \<open>A catalog that rejects nothing, and one that rejects the first marker creation it
  receives and accepts every later one.\<close>

definition no_faults :: "gql list \<Rightarrow> gql \<Rightarrow> string option" where
  "no_faults hist q = None"

fun is_marker_create :: "gql \<Rightarrow> bool" where
  "is_marker_create (CreateSceneMarker s t secs ids) = True"
| "is_marker_create q = False"


definition empty_catalog :: catalog where
  "empty_catalog =
     \<lparr>cat_tags = [], scene_tags = (\<lambda>s. {}), image_tags = (\<lambda>s. {}), scene_markers = [],
      requests = []\<rparr>"

text \<open>Reading a catalog: the id a tag name resolves to; the ids that the names of a marker
  resolve to, names that do not resolve skipped; whether two catalogs hold the same tags and
  the same attachments.\<close>

definition tag_id :: "(nat \<times> string) list \<Rightarrow> string \<Rightarrow> nat option" where
  "tag_id ts n = map_option fst (find (\<lambda>t. snd t = n) ts)"

definition same_tags :: "catalog \<Rightarrow> catalog \<Rightarrow> bool" where
  "same_tags c c' =
     (cat_tags c' = cat_tags c \<and> scene_tags c' = scene_tags c \<and> image_tags c' = image_tags c)"

definition resolved_ids :: "(nat \<times> string) list \<Rightarrow> string list \<Rightarrow> nat list" where
  "resolved_ids ts names =
     concat (map (\<lambda>n. case find (\<lambda>t. snd t = n) ts of None \<Rightarrow> [] | Some t \<Rightarrow> [fst t]) names)"

text \<open>
  Whether catalog \<open>c'\<close> is catalog \<open>c\<close> with tags and markers added at the end, none of
  the added tags bearing a name that \<open>c\<close> or another added tag bears, and none of the added
  markers having the scene, title and offset of a marker of \<open>c\<close> or of another added one.
\<close>

definition extends_without_duplicates :: "catalog \<Rightarrow> catalog \<Rightarrow> bool" where
  "extends_without_duplicates c c' =
     (let new_tags = drop (length (cat_tags c)) (cat_tags c');
          new_markers = drop (length (scene_markers c)) (scene_markers c')
      in take (length (cat_tags c)) (cat_tags c') = cat_tags c
         \<and> distinct (map snd new_tags)
         \<and> set (map snd new_tags) \<inter> set (map snd (cat_tags c)) = {}
         \<and> take (length (scene_markers c)) (scene_markers c') = scene_markers c
         \<and> distinct (map marker_key new_markers)
         \<and> set (map marker_key new_markers) \<inter> set (map marker_key (scene_markers c)) = {})"

text \<open>Adding a marker to the markers of the catalog.\<close>

definition add_marker ::
  "string \<times> string \<times> real \<times> nat list \<Rightarrow> (string \<times> string \<times> real \<times> nat list) list
     \<Rightarrow> (string \<times> string \<times> real \<times> nat list) list" where
  "add_marker e ms = (if marker_key e \<in> set (map marker_key ms) then ms else ms @ [e])"

text \<open>The catalog entries of the markers of a result, given the tags of the catalog.\<close>

definition marker_entries ::
  "string \<Rightarrow> (nat \<times> string) list \<Rightarrow> marker list \<Rightarrow> (string \<times> string \<times> real \<times> nat list) list" where
  "marker_entries s ts ms = map (\<lambda>m. (s, title m, seconds m, resolved_ids ts (marker_tags m))) ms"

text \<open>The request that \<open>processItem\<close> sends for an item of a type.\<close>

definition process_request :: "item_type \<Rightarrow> string \<Rightarrow> creq" where
  "process_request type itemId = (if type = Scenes then ProcessScene itemId else ProcessImage itemId)"

text \<open>An analysis with two tags and one marker; a container that answers 200 with it; a
  container that answers 500 for scene 3 and 200 for everything else.\<close>

definition two_tags_one_marker :: analysis where
  "two_tags_one_marker =
     \<lparr>tags = [''a'', ''b''],
      markers = [\<lparr>title = ''intro'', seconds = 5, marker_tags = [''a'']\<rparr>]\<rparr>"


definition container_500_on_3 :: "creq list \<Rightarrow> creq \<Rightarrow> reply" where
  "container_500_on_3 hist r =
     (if r = ProcessScene ''3'' then HttpReply 500 ''Internal Server Error'' \<lparr>tags = [], markers = []\<rparr>
      else HttpReply 200 ''OK'' two_tags_one_marker)"

definition fresh_world :: world where
  "fresh_world = \<lparr>container_log = [], catalog = empty_catalog\<rparr>"

text \<open>How often the container received a request during a run.\<close>

definition calls_for :: "creq \<Rightarrow> (world, 'r) run \<Rightarrow> nat" where
  "calls_for q r = count_list (container_log (run_world r)) q"


section \<open>Properties of the retry policy\<close>

lemma invocations_append: "invocations (xs @ ys) = invocations xs + invocations ys"
  by (induction xs rule: invocations.induct) auto

lemma sleeps_of_append: "sleeps_of (xs @ ys) = sleeps_of xs @ sleeps_of ys"
  by (induction xs rule: sleeps_of.induct) auto

lemma backoff_trace_step:
  "a < n \<Longrightarrow> backoff_trace b rnd a n =
     Call a # Return a # Sleep (b * 2 ^ (a - 1) + rnd a * 1000) # backoff_trace b rnd (Suc a) n"
  by (simp add: backoff_trace_def upt_conv_Cons)

lemma backoff_trace_last: "backoff_trace b rnd n n = [Call n, Return n]"
  by (simp add: backoff_trace_def)

lemma invocations_backoff: "a \<le> n \<Longrightarrow> invocations (backoff_trace b rnd a n) = Suc n - a"
proof (induction "n - a" arbitrary: a)
  case 0
  then show ?case by (simp add: backoff_trace_last)
next
  case (Suc d)
  then have "a < n" by simp
  with Suc show ?case by (simp add: backoff_trace_step)
qed

lemma sleeps_backoff:
  "a \<le> n \<Longrightarrow> sleeps_of (backoff_trace b rnd a n) = map (\<lambda>k. b * 2 ^ (k - 1) + rnd k * 1000) [a..<n]"
proof (induction "n - a" arbitrary: a)
  case 0
  then show ?case by (simp add: backoff_trace_last)
next
  case (Suc d)
  then have "a < n" by simp
  with Suc show ?case by (simp add: backoff_trace_step upt_conv_Cons)
qed

lemma peak_backoff: "a \<le> n \<Longrightarrow> peak 0 (backoff_trace b rnd a n) = 1"
proof (induction "n - a" arbitrary: a)
  case 0
  then show ?case by (simp add: backoff_trace_last)
next
  case (Suc d)
  then have "a < n" by simp
  with Suc show ?case by (simp add: backoff_trace_step)
qed

lemma last_backoff: "last (backoff_trace b rnd a n) = Return n"
  by (simp add: backoff_trace_def)

lemma retryLoop_shape:
  assumes "attempt \<le> maxRetries"
    and "retryLoop requestFn maxRetries baseDelay rnd attempt lastError w = (r, w', tr)"
  shows "\<exists>n. attempt \<le> n \<and> n \<le> maxRetries
           \<and> tr = backoff_trace baseDelay rnd attempt n
           \<and> w' = ((snd \<circ> requestFn) ^^ (Suc n - attempt)) w
           \<and> (\<forall>k. attempt \<le> k \<and> k < n \<longrightarrow> isl (fst (requestFn (((snd \<circ> requestFn) ^^ (k - attempt)) w))))
           \<and> (case r of
                 Inr v \<Rightarrow> fst (requestFn (((snd \<circ> requestFn) ^^ (n - attempt)) w)) = Inr v
               | Inl t \<Rightarrow> n = maxRetries
                          \<and> (\<exists>e. t = Thrown e \<and> fst (requestFn (((snd \<circ> requestFn) ^^ (n - attempt)) w)) = Inl e))"
  using assms
proof (induction requestFn maxRetries baseDelay rnd attempt lastError w arbitrary: r w' tr
    rule: retryLoop.induct)
  case (1 requestFn maxRetries baseDelay rnd attempt lastError w)
  obtain res w1 where fw: "requestFn w = (res, w1)" by (cases "requestFn w")
  show ?case
  proof (cases res)
    case (Inr v)
    with fw "1.prems" have "r = Inr v" "w' = w1" "tr = [Call attempt, Return attempt]"
      by (simp_all add: retryLoop.simps)
    with fw Inr "1.prems"(1) show ?thesis
      by (intro exI[of _ attempt]) (simp add: backoff_trace_last)
  next
    case (Inl e)
    show ?thesis
    proof (cases "attempt = maxRetries")
      case True
      with fw Inl "1.prems" have "r = Inl (Thrown e)" "w' = w1" "tr = [Call attempt, Return attempt]"
        by (simp_all add: retryLoop.simps)
      with fw Inl True show ?thesis
        by (intro exI[of _ attempt]) (simp add: backoff_trace_last)
    next
      case False
      with "1.prems"(1) have lt: "Suc attempt \<le> maxRetries" by simp
      obtain r2 w2 tr2 where rec:
        "retryLoop requestFn maxRetries baseDelay rnd (Suc attempt) (Thrown e) w1 = (r2, w2, tr2)"
        by (metis prod_cases3)
      with fw Inl False "1.prems" have eqs: "r = r2" "w' = w2"
        "tr = Call attempt # Return attempt # Sleep (baseDelay * 2 ^ (attempt - 1) + rnd attempt * 1000) # tr2"
        by (simp_all add: retryLoop.simps)
      from "1.IH"[OF "1.prems"(1) fw[symmetric] Inl False lt rec]
      obtain n where n: "Suc attempt \<le> n" "n \<le> maxRetries"
        "tr2 = backoff_trace baseDelay rnd (Suc attempt) n"
        "w2 = ((snd \<circ> requestFn) ^^ (Suc n - Suc attempt)) w1"
        "\<forall>k. Suc attempt \<le> k \<and> k < n \<longrightarrow> isl (fst (requestFn (((snd \<circ> requestFn) ^^ (k - Suc attempt)) w1)))"
        "(case r2 of
                 Inr v \<Rightarrow> fst (requestFn (((snd \<circ> requestFn) ^^ (n - Suc attempt)) w1)) = Inr v
               | Inl t \<Rightarrow> n = maxRetries
                          \<and> (\<exists>e. t = Thrown e \<and> fst (requestFn (((snd \<circ> requestFn) ^^ (n - Suc attempt)) w1)) = Inl e))"
        by blast
      have w1: "w1 = (snd \<circ> requestFn) w" using fw by simp
      have shift: "\<And>j. ((snd \<circ> requestFn) ^^ j) w1 = ((snd \<circ> requestFn) ^^ Suc j) w"
        unfolding w1 by (simp add: funpow_swap1)
      have sub: "\<And>k. Suc attempt \<le> k \<Longrightarrow> Suc (k - Suc attempt) = k - attempt" by simp
      show ?thesis
      proof (intro exI[of _ n] conjI)
        show "attempt \<le> n" using n(1) by simp
        show "n \<le> maxRetries" by fact
        show "tr = backoff_trace baseDelay rnd attempt n"
          using eqs(3) n(1,3) by (simp add: backoff_trace_step)
        show "w' = ((snd \<circ> requestFn) ^^ (Suc n - attempt)) w"
        proof -
          have "((snd \<circ> requestFn) ^^ (Suc n - Suc attempt)) w1 = ((snd \<circ> requestFn) ^^ (Suc n - attempt)) w"
            using shift[of "n - attempt"] n(1) by (simp del: funpow.simps add: Suc_diff_le)
          with eqs(2) n(4) show ?thesis by (simp del: funpow.simps)
        qed
        show "\<forall>k. attempt \<le> k \<and> k < n \<longrightarrow> isl (fst (requestFn (((snd \<circ> requestFn) ^^ (k - attempt)) w)))"
        proof (intro allI impI)
          fix k assume k: "attempt \<le> k \<and> k < n"
          show "isl (fst (requestFn (((snd \<circ> requestFn) ^^ (k - attempt)) w)))"
          proof (cases "k = attempt")
            case True
            then show ?thesis using fw Inl by simp
          next
            case False
            with k have k': "Suc attempt \<le> k" "k < n" by simp_all
            with n(5) have "isl (fst (requestFn (((snd \<circ> requestFn) ^^ (k - Suc attempt)) w1)))" by blast
            moreover have "((snd \<circ> requestFn) ^^ (k - Suc attempt)) w1 = ((snd \<circ> requestFn) ^^ (k - attempt)) w"
              using shift[of "k - Suc attempt"] sub[OF k'(1)] by (simp del: funpow.simps)
            ultimately show ?thesis by (simp del: funpow.simps)
          qed
        qed
        show "case r of
                 Inr v \<Rightarrow> fst (requestFn (((snd \<circ> requestFn) ^^ (n - attempt)) w)) = Inr v
               | Inl t \<Rightarrow> n = maxRetries
                          \<and> (\<exists>e. t = Thrown e \<and> fst (requestFn (((snd \<circ> requestFn) ^^ (n - attempt)) w)) = Inl e)"
        proof -
          have "((snd \<circ> requestFn) ^^ (n - Suc attempt)) w1 = ((snd \<circ> requestFn) ^^ (n - attempt)) w"
            using shift[of "n - Suc attempt"] sub[OF n(1)] by (simp del: funpow.simps)
          with n(6) eqs(1) show ?thesis by (auto simp del: funpow.simps split: sum.splits)
        qed
      qed
    qed
  qed
qed

lemma retryRequest_shape:
  assumes "1 \<le> maxRetries"
    and "retryRequest requestFn maxRetries baseDelay rnd w = (r, w', tr)
         \<or> retryOperation requestFn maxRetries baseDelay rnd w = (r, w', tr)"
  shows "\<exists>n. 1 \<le> n \<and> n \<le> maxRetries
           \<and> tr = backoff_trace baseDelay rnd 1 n
           \<and> w' = ((snd \<circ> requestFn) ^^ n) w
           \<and> (\<forall>k. 1 \<le> k \<and> k < n \<longrightarrow> isl (fst (requestFn (((snd \<circ> requestFn) ^^ (k - 1)) w))))
           \<and> (case r of
                 Inr v \<Rightarrow> fst (requestFn (((snd \<circ> requestFn) ^^ (n - 1)) w)) = Inr v
               | Inl t \<Rightarrow> n = maxRetries
                          \<and> (\<exists>e. t = Thrown e \<and> fst (requestFn (((snd \<circ> requestFn) ^^ (n - 1)) w)) = Inl e))"
proof -
  from assms(2) have "retryLoop requestFn maxRetries baseDelay rnd 1 Undefined w = (r, w', tr)"
    by (auto simp: retryRequest_def retryOperation_def)
  from retryLoop_shape[OF assms(1) this] show ?thesis by (simp del: funpow.simps)
qed

text \<open>
  Claim C5. For every operation, every \<open>maxRetries \<ge> 1\<close> and every base delay, the retry
  policy (\<open>retryRequest\<close>, and \<open>retryOperation\<close>, which is the same loop) invokes the
  wrapped operation at least once and at most \<open>maxRetries\<close> times, and never concurrently
  with itself: at most one invocation is open at any point of the trace, and the world the
  policy leaves is the one reached by running the invocations one after the other.
\<close>

theorem retry_invocation_bounds:
  assumes "1 \<le> maxRetries"
    and "retryRequest requestFn maxRetries baseDelay rnd w = (r, w', tr)
         \<or> retryOperation requestFn maxRetries baseDelay rnd w = (r, w', tr)"
  shows "1 \<le> invocations tr \<and> invocations tr \<le> maxRetries \<and> peak 0 tr \<le> 1
         \<and> w' = ((snd \<circ> requestFn) ^^ invocations tr) w"
proof -
  from retryRequest_shape[OF assms] obtain n where n: "1 \<le> n" "n \<le> maxRetries"
    "tr = backoff_trace baseDelay rnd 1 n" "w' = ((snd \<circ> requestFn) ^^ n) w"
    by blast
  from n(1) have "invocations tr = n" "peak 0 tr = 1"
    unfolding n(3) by (simp_all add: invocations_backoff peak_backoff)
  with n show ?thesis by simp
qed

theorem retry_invocation_bounds_witness:
  "(1::nat) \<le> 3
   \<and> retryRequest always500 3 1000 no_jitter () =
       (Inl (Thrown err500), (),
        [Call 1, Return 1, Sleep 1000, Call 2, Return 2, Sleep 2000, Call 3, Return 3])
   \<and> invocations [Call 1, Return 1, Sleep 1000, Call 2, Return 2, Sleep 2000, Call 3, Return 3] = 3
   \<and> peak 0 [Call 1, Return 1, Sleep 1000, Call 2, Return 2, Sleep 2000, Call 3, Return 3] \<le> 1"
proof -
  have run: "retryRequest always500 3 1000 no_jitter () =
       (Inl (Thrown err500), (),
        [Call 1, Return 1, Sleep 1000, Call 2, Return 2, Sleep 2000, Call 3, Return 3])"
    by (simp add: retryRequest_def retryLoop.simps always500_def no_jitter_def)
  have le: "(1::nat) \<le> 3" by simp
  from retry_invocation_bounds[OF le disjI1[OF run]] run show ?thesis by simp
qed

text \<open>
  When the loop throws, it throws from attempt \<open>maxRetries\<close>, with no sleep after that
  attempt: a run that throws has made exactly \<open>maxRetries\<close> invocations and slept
  \<open>maxRetries - 1\<close> times, whatever the errors were.
\<close>

theorem retry_throws_only_after_last_attempt:
  assumes "1 \<le> maxRetries"
    and "retryRequest requestFn maxRetries baseDelay rnd w = (Inl t, w', tr)"
  shows "tr = backoff_trace baseDelay rnd 1 maxRetries
         \<and> invocations tr = maxRetries
         \<and> length (sleeps_of tr) = maxRetries - 1
         \<and> last tr = Return maxRetries
         \<and> (\<exists>e. t = Thrown e
                \<and> fst (requestFn (((snd \<circ> requestFn) ^^ (maxRetries - 1)) w)) = Inl e)"
proof -
  from retryRequest_shape[OF assms(1) disjI1[OF assms(2)]]
  have tr: "tr = backoff_trace baseDelay rnd 1 maxRetries"
    and e: "\<exists>e. t = Thrown e \<and> fst (requestFn (((snd \<circ> requestFn) ^^ (maxRetries - 1)) w)) = Inl e"
    by auto
  from assms(1) have "invocations tr = maxRetries" "length (sleeps_of tr) = maxRetries - 1"
    "last tr = Return maxRetries"
    unfolding tr by (simp_all add: invocations_backoff sleeps_backoff last_backoff)
  with tr e show ?thesis by blast
qed

theorem retry_throws_only_after_last_attempt_witness:
  "(1::nat) \<le> 3
   \<and> retryRequest always404 3 1000 no_jitter () =
       (Inl (Thrown err404), (), backoff_trace 1000 no_jitter 1 3)
   \<and> invocations (backoff_trace 1000 no_jitter 1 3) = 3
   \<and> length (sleeps_of (backoff_trace 1000 no_jitter 1 3)) = 2"
proof -
  have run: "retryRequest always404 3 1000 no_jitter () =
       (Inl (Thrown err404), (), backoff_trace 1000 no_jitter 1 3)"
    by (simp add: retryRequest_def retryLoop.simps always404_def no_jitter_def backoff_trace_def
        upt_conv_Cons)
  have le: "(1::nat) \<le> 3" by simp
  from retry_throws_only_after_last_attempt[OF le run] run show ?thesis by simp
qed

text \<open>
  Claim C3 fails on the code. An operation that always fails with HTTP 404, which
  \<open>shouldRetry\<close> classifies as not retryable, is invoked three times with two sleeps
  before its error is propagated: neither retry loop consults the classifier that the
  repository provides and documents (\<open>shouldRetry\<close>: "Don't retry on certain errors";
  the implementation guide lists 400, 401, 403 and 404 as non-retryable errors).
\<close>

theorem nonretryable_error_is_retried:
  "\<not> shouldRetry err404
   \<and> retryRequest always404 3 1000 no_jitter () =
       (Inl (Thrown err404), (),
        [Call 1, Return 1, Sleep 1000, Call 2, Return 2, Sleep 2000, Call 3, Return 3])"
  by (simp add: shouldRetry_def getErrorCode_def truthy_def err404_def toString.simps
      retryRequest_def retryLoop.simps always404_def no_jitter_def)

text \<open>
  Claim C4, as amended. When a retryable failure occurs at attempt \<open>k\<close> with
  \<open>k < maxRetries\<close>, \<open>retryRequest\<close> sleeps for
  \<open>baseDelay * 2^(k-1) + Math.random() * 1000\<close> milliseconds before attempt \<open>k + 1\<close>;
  there is no \<open>maxDelay\<close>, so this is the capped delay of the specification exactly when
  \<open>baseDelay * 2^(k-1) \<le> maxDelay\<close>. After the final attempt the error is raised with no
  further sleep. The theorem gives the delay after every failed attempt before the last,
  so after every retryable one.
\<close>

theorem retry_backoff_delays:
  assumes "1 \<le> maxRetries"
    and "retryRequest requestFn maxRetries baseDelay rnd w = (r, w', tr)"
  shows "length (sleeps_of tr) = invocations tr - 1
         \<and> (\<forall>k. 1 \<le> k \<and> k < invocations tr \<longrightarrow>
               isl (fst (requestFn (((snd \<circ> requestFn) ^^ (k - 1)) w)))
               \<and> sleeps_of tr ! (k - 1) = baseDelay * 2 ^ (k - 1) + rnd k * 1000
               \<and> (baseDelay * 2 ^ (k - 1) \<le> maxDelay \<longrightarrow>
                    sleeps_of tr ! (k - 1) = min maxDelay (baseDelay * 2 ^ (k - 1)) + rnd k * 1000))
         \<and> (isl r \<longrightarrow> invocations tr = maxRetries \<and> last tr = Return maxRetries)"
proof -
  from retryRequest_shape[OF assms(1) disjI1[OF assms(2)]] obtain n where n0: "1 \<le> n" "n \<le> maxRetries"
    "tr = backoff_trace baseDelay rnd 1 n"
    "\<forall>k. 1 \<le> k \<and> k < n \<longrightarrow> isl (fst (requestFn (((snd \<circ> requestFn) ^^ (k - 1)) w)))"
    and c: "(case r of
                 Inr v \<Rightarrow> fst (requestFn (((snd \<circ> requestFn) ^^ (n - 1)) w)) = Inr v
               | Inl t \<Rightarrow> n = maxRetries
                          \<and> (\<exists>e. t = Thrown e \<and> fst (requestFn (((snd \<circ> requestFn) ^^ (n - 1)) w)) = Inl e))"
    by blast
  from c have "isl r \<longrightarrow> n = maxRetries" by (cases r) simp_all
  note n = n0 this
  from n(1) have inv: "invocations tr = n"
    and sl: "sleeps_of tr = map (\<lambda>k. baseDelay * 2 ^ (k - 1) + rnd k * 1000) [1..<n]"
    and la: "last tr = Return n"
    unfolding n(3) by (simp_all add: invocations_backoff sleeps_backoff last_backoff)
  have nth: "sleeps_of tr ! (k - 1) = baseDelay * 2 ^ (k - 1) + rnd k * 1000"
    if "1 \<le> k" "k < n" for k
  proof -
    from that have "k - 1 < length [1..<n]" by simp
    then have "sleeps_of tr ! (k - 1) = (\<lambda>k. baseDelay * 2 ^ (k - 1) + rnd k * 1000) ([1..<n] ! (k - 1))"
      unfolding sl by (rule nth_map)
    also from that have "[1..<n] ! (k - 1) = k" by simp
    finally show ?thesis .
  qed
  have len: "length (sleeps_of tr) = n - 1" by (simp add: sl)
  show ?thesis
    unfolding inv using n(4,5) la nth len by (simp add: min_def)
qed

theorem retry_backoff_delays_witness:
  "(1::nat) \<le> 3
   \<and> retryRequest always500 3 1000 no_jitter () =
       (Inl (Thrown err500), (),
        [Call 1, Return 1, Sleep 1000, Call 2, Return 2, Sleep 2000, Call 3, Return 3])
   \<and> sleeps_of [Call 1, Return 1, Sleep 1000, Call 2, Return 2, Sleep 2000, Call 3, Return 3]
       = [1000 * 2 ^ 0 + no_jitter 1 * 1000, 1000 * 2 ^ 1 + no_jitter 2 * 1000]"
proof -
  have run: "retryRequest always500 3 1000 no_jitter () =
       (Inl (Thrown err500), (),
        [Call 1, Return 1, Sleep 1000, Call 2, Return 2, Sleep 2000, Call 3, Return 3])"
    by (simp add: retryRequest_def retryLoop.simps always500_def no_jitter_def)
  have le: "(1::nat) \<le> 3" by simp
  from retry_backoff_delays[OF le run, of 30000] run show ?thesis
    by (simp add: no_jitter_def)
qed

text \<open>
  The claim as stated fails: with \<open>baseDelay = 1000\<close> the sleep after the sixth failed
  attempt is 32000 ms, above the \<open>maxDelay = 30000\<close> of \<open>getRetryDelay\<close>, which the retry
  loop never calls.
\<close>

theorem backoff_delay_exceeds_maxDelay:
  "sleeps_of (snd (snd (retryRequest always500 7 1000 no_jitter ()))) ! 5 = 32000
   \<and> min 30000 (1000 * 2 ^ (6 - 1)) + no_jitter 6 * 1000 = (30000::real)
   \<and> getRetryDelay 6 1000 30000 (no_jitter 6) = 30000"
  by (simp add: retryRequest_def retryLoop.simps always500_def no_jitter_def getRetryDelay_def)

section \<open>Properties of the progress percentage\<close>

lemma round_even_le: "z \<le> of_int k \<Longrightarrow> round_even z \<le> k"
proof -
  assume z: "z \<le> of_int k"
  have f: "\<lfloor>z\<rfloor> \<le> k" using z by (simp add: floor_le_iff)
  show ?thesis
  proof (cases "\<lfloor>z\<rfloor> = k")
    case True
    then have "of_int k \<le> z" by (metis of_int_floor_le)
    with z have "z = of_int k" by simp
    then show ?thesis by (simp add: round_even_def)
  next
    case False
    with f have "\<lfloor>z\<rfloor> + 1 \<le> k" by simp
    then show ?thesis using f by (auto simp: round_even_def Let_def)
  qed
qed

lemma round_even_ge: "of_int k \<le> z \<Longrightarrow> k \<le> round_even z"
proof -
  assume "of_int k \<le> z"
  then have "k \<le> \<lfloor>z\<rfloor>" by (simp add: le_floor_iff)
  then show ?thesis by (auto simp: round_even_def Let_def)
qed

lemma binary64_nonneg: "0 \<le> x \<Longrightarrow> 0 \<le> binary64 x"
proof (cases "x = 0")
  case True
  then show ?thesis by (simp add: binary64_def)
next
  case False
  assume "0 \<le> x"
  then have "of_int 0 \<le> x / 2 powi ulp_exp x" by simp
  from round_even_ge[OF this] show ?thesis using False by (simp add: binary64_def)
qed

lemma ulp_exp_nonpos: "0 < x \<Longrightarrow> x < 2 ^ 53 \<Longrightarrow> ulp_exp x \<le> 0"
proof -
  assume x: "0 < x" "x < 2 ^ 53"
  have "(2::real) powr 53 = 2 ^ 53" by (simp add: powr_numeral)
  with x have "log 2 x < 53" by (subst log_less_iff) simp_all
  then have "\<lfloor>log 2 x\<rfloor> < 53" by (simp add: floor_less_iff)
  with x show ?thesis by (simp add: ulp_exp_def)
qed

text \<open>Rounding to a double does not pass an integer above the number.\<close>

lemma binary64_le_int:
  assumes "0 < x" and "x \<le> of_int N" and "x < 2 ^ 53"
  shows "binary64 x \<le> of_int N"
proof -
  define u where "u = ulp_exp x"
  from ulp_exp_nonpos[OF assms(1,3)] have u: "u \<le> 0" by (simp add: u_def)
  define n where "n = nat (- u)"
  have p: "(2::real) powi u = 1 / 2 ^ n"
    using u by (simp add: n_def power_int_def divide_simps)
  have "x / 2 powi u \<le> of_int (N * 2 ^ n)"
    using assms(2) by (simp add: p mult_right_mono)
  from round_even_le[OF this]
  have "(of_int (round_even (x / 2 powi u)) :: real) \<le> of_int N * 2 ^ n"
    by (metis of_int_le_iff of_int_mult of_int_numeral of_int_power)
  then have "(of_int (round_even (x / 2 powi u)) :: real) * (1 / 2 ^ n) \<le> of_int N"
    by (simp add: divide_simps)
  then show ?thesis using assms(1) unfolding p[symmetric] by (simp add: binary64_def u_def[symmetric])
qed

lemma binary64_unit_interval:
  assumes "0 \<le> x" and "x \<le> 1"
  shows "0 \<le> binary64 x \<and> binary64 x \<le> 1"
proof (cases "x = 0")
  case True
  then show ?thesis by (simp add: binary64_def)
next
  case False
  with assms have "0 < x" "x \<le> of_int 1" "x < 2 ^ 53" by simp_all
  from binary64_le_int[OF this] binary64_nonneg[OF assms(1)] show ?thesis by simp
qed

lemma binary64_percent_interval:
  assumes "0 \<le> y" and "y \<le> 100"
  shows "0 \<le> binary64 y \<and> binary64 y \<le> 100"
proof (cases "y = 0")
  case True
  then show ?thesis by (simp add: binary64_def)
next
  case False
  with assms have "0 < y" "y \<le> of_int 100" "y < 2 ^ 53" by simp_all
  from binary64_le_int[OF this] binary64_nonneg[OF assms(1)] show ?thesis by simp
qed

lemma ulp_exp_eq:
  "0 < x \<Longrightarrow> 2 powr of_int e \<le> x \<Longrightarrow> x < 2 powr (of_int e + 1) \<Longrightarrow> ulp_exp x = e - 52"
  by (simp add: ulp_exp_def floor_log_eq_powr_iff)

text \<open>The double quotient 23 / 40 and its double product with 100.\<close>

lemma binary64_23_40: "binary64 (23 / 40) = 5179139571476070 / 2 ^ 53"
proof -
  have "ulp_exp (23 / 40) = -1 - 52" by (rule ulp_exp_eq) (simp_all add: powr_minus)
  then have u: "ulp_exp (23 / 40) = -53" by simp
  show ?thesis
    by (simp add: binary64_def u round_even_def Let_def power_int_minus)
qed

lemma binary64_23_40_times_100:
  "binary64 (5179139571476070 / 2 ^ 53 * 100) = 8092405580431359 / 2 ^ 47"
proof -
  define y :: real where "y = 5179139571476070 / 2 ^ 53 * 100"
  have "ulp_exp y = 5 - 52"
    by (rule ulp_exp_eq) (simp_all add: y_def powr_numeral)
  then have u: "ulp_exp y = -47" by simp
  have r: "round_even (y / 2 powi (-47)) = 8092405580431359"
    by (simp add: y_def round_even_def Let_def power_int_minus)
  have "y \<noteq> 0" by (simp add: y_def)
  then have "binary64 y = of_int (round_even (y / 2 powi (-47))) * 2 powi (-47)"
    by (simp add: binary64_def u)
  also have "\<dots> = 8092405580431359 / 2 ^ 47" unfolding r by (simp add: power_int_minus)
  finally show ?thesis unfolding y_def .
qed

text \<open>
  Claim C10, as amended. For every progress state the percentage is defined: it is 0 when
  \<open>progress.total = 0\<close> (nothing is divided by zero), and otherwise
  \<open>Math.round\<close> of the double product of the double quotient \<open>completed / total\<close> with
  100, an integer between 0 and 100 whenever \<open>completed \<le> total\<close>. It need not be the
  rounding of the exact \<open>100 * completed / total\<close>.
\<close>

theorem progress_percentage_defined_and_bounded:
  "(total (progress st) = 0 \<longrightarrow> getProgressPercentage st = 0)
   \<and> (total (progress st) \<noteq> 0 \<longrightarrow>
        getProgressPercentage st
          = Math_round (binary64 (binary64 (real (completed (progress st))
                                            / real (total (progress st))) * 100)))
   \<and> (completed (progress st) \<le> total (progress st)
        \<longrightarrow> 0 \<le> getProgressPercentage st \<and> getProgressPercentage st \<le> 100)"
proof -
  let ?c = "real (completed (progress st))" and ?t = "real (total (progress st))"
  have bd: "0 \<le> getProgressPercentage st \<and> getProgressPercentage st \<le> 100"
    if le: "completed (progress st) \<le> total (progress st)"
  proof (cases "total (progress st) = 0")
    case True
    then show ?thesis by (simp add: getProgressPercentage_def)
  next
    case False
    then have t: "0 < ?t" by simp
    from le have "?c \<le> ?t" by simp
    with t have "0 \<le> ?c / ?t" "?c / ?t \<le> 1" by simp_all
    from binary64_unit_interval[OF this]
    have "0 \<le> binary64 (?c / ?t) * 100" "binary64 (?c / ?t) * 100 \<le> 100" by simp_all
    from binary64_percent_interval[OF this]
    have lo: "(0::real) \<le> binary64 (binary64 (?c / ?t) * 100) + 1 / 2"
      and hi: "binary64 (binary64 (?c / ?t) * 100) + 1 / 2 < 101"
      by simp_all
    from lo have "0 \<le> \<lfloor>binary64 (binary64 (?c / ?t) * 100) + 1 / 2\<rfloor>" by simp
    moreover from hi have "\<lfloor>binary64 (binary64 (?c / ?t) * 100) + 1 / 2\<rfloor> < 101"
      by (simp add: floor_less_iff)
    ultimately show ?thesis using False by (simp add: getProgressPercentage_def Math_round_def)
  qed
  then show ?thesis by (simp add: getProgressPercentage_def)
qed

theorem progress_percentage_defined_and_bounded_witness:
  "completed (progress done_23_of_40) \<le> total (progress done_23_of_40)
   \<and> total (progress done_23_of_40) \<noteq> 0
   \<and> getProgressPercentage done_23_of_40
       = Math_round (binary64 (binary64 (real (completed (progress done_23_of_40))
                                         / real (total (progress done_23_of_40))) * 100))
   \<and> 0 \<le> getProgressPercentage done_23_of_40
   \<and> getProgressPercentage done_23_of_40 \<le> 100
   \<and> total (progress (selected [] :: unit ui_state)) = 0
   \<and> getProgressPercentage (selected [] :: unit ui_state) = 0"
proof -
  have h: "completed (progress done_23_of_40) \<le> total (progress done_23_of_40)"
    "total (progress done_23_of_40) \<noteq> 0"
    by (simp_all add: done_23_of_40_def)
  have z: "total (progress (selected [] :: unit ui_state)) = 0"
    by (simp add: selected_def)
  from h z progress_percentage_defined_and_bounded[of done_23_of_40]
    progress_percentage_defined_and_bounded[of "selected [] :: unit ui_state"]
  show ?thesis by blast
qed

text \<open>
  The claim as stated fails: with 23 of 40 items completed the double quotient is below
  0.575 and its double product with 100 is below 57.5, so the percentage is 57, while the
  rounding of \<open>100 * 23 / 40 = 57.5\<close> is 58.
\<close>

theorem percentage_of_23_of_40_is_57:
  "getProgressPercentage done_23_of_40 = 57
   \<and> round (100 * real (completed (progress done_23_of_40))
              / real (total (progress done_23_of_40))) = 58"
proof -
  have "getProgressPercentage done_23_of_40 = Math_round (binary64 (binary64 (23 / 40) * 100))"
    by (simp add: getProgressPercentage_def done_23_of_40_def)
  also have "\<dots> = Math_round (8092405580431359 / 2 ^ 47)"
    by (simp only: binary64_23_40 binary64_23_40_times_100)
  also have "\<dots> = 57" by (simp add: Math_round_def)
  finally have code: "getProgressPercentage done_23_of_40 = 57" .
  have "round (100 * real (completed (progress done_23_of_40))
              / real (total (progress done_23_of_40))) = 58"
    by (simp add: done_23_of_40_def round_def)
  with code show ?thesis by simp
qed

section \<open>Properties of the batch processor\<close>

lemma chunks_Nil: "chunks n [] = []"
  by (simp add: chunks.simps)

lemma chunks_Cons:
  "1 \<le> n \<Longrightarrow> xs \<noteq> [] \<Longrightarrow> chunks n xs = take n xs # chunks n (drop n xs)"
  by (subst chunks.simps) simp

lemma concat_chunks: "1 \<le> n \<Longrightarrow> concat (chunks n xs) = xs"
proof (induction n xs rule: chunks.induct)
  case (1 n xs)
  show ?case
  proof (cases "xs = []")
    case True
    then show ?thesis by (simp add: chunks_Nil)
  next
    case False
    with 1 show ?thesis by (simp add: chunks_Cons)
  qed
qed

lemma chunks_bounded: "1 \<le> n \<Longrightarrow> b \<in> set (chunks n xs) \<Longrightarrow> b \<noteq> [] \<and> length b \<le> n"
proof (induction n xs rule: chunks.induct)
  case (1 n xs)
  show ?case
  proof (cases "xs = []")
    case True
    with "1.prems" show ?thesis by (simp add: chunks_Nil)
  next
    case False
    with "1.prems" have "b = take n xs \<or> b \<in> set (chunks n (drop n xs))"
      by (simp add: chunks_Cons)
    then show ?thesis
    proof
      assume "b = take n xs"
      with False "1.prems"(1) show ?thesis by auto
    next
      assume "b \<in> set (chunks n (drop n xs))"
      with 1 False show ?thesis by simp
    qed
  qed
qed

lemma chunks_full:
  "1 \<le> n \<Longrightarrow> Suc j < length (chunks n xs) \<Longrightarrow> length (chunks n xs ! j) = n"
proof (induction n xs arbitrary: j rule: chunks.induct)
  case (1 n xs)
  show ?case
  proof (cases "xs = []")
    case True
    with "1.prems" show ?thesis by (simp add: chunks_Nil)
  next
    case False
    with "1.prems" have eq: "chunks n xs = take n xs # chunks n (drop n xs)"
      by (simp add: chunks_Cons)
    with "1.prems" have rest: "chunks n (drop n xs) \<noteq> []" by auto
    then have "drop n xs \<noteq> []" by (auto simp: chunks_Nil)
    then have full: "length (take n xs) = n" by simp
    show ?thesis
    proof (cases j)
      case 0
      with eq full show ?thesis by simp
    next
      case (Suc j')
      with "1.prems" eq have "Suc j' < length (chunks n (drop n xs))" by simp
      with "1.IH"[of j'] False "1.prems"(1) have "length (chunks n (drop n xs) ! j') = n" by simp
      with eq Suc show ?thesis by simp
    qed
  qed
qed

lemma createBatches_loop_chunks:
  "1 \<le> batchSize \<Longrightarrow>
     createBatches_loop items batchSize i batches = Some (batches @ chunks batchSize (drop i items))"
proof (induction "length items - i" arbitrary: i batches rule: less_induct)
  case less
  show ?case
  proof (cases "i < length items")
    case False
    then show ?thesis
      by (subst createBatches_loop.simps) (simp add: chunks_Nil)
  next
    case True
    with less.prems have "length items - (i + batchSize) < length items - i" by simp
    from less.hyps[OF this less.prems]
    have "createBatches_loop items batchSize (i + batchSize) (batches @ [take batchSize (drop i items)])
          = Some ((batches @ [take batchSize (drop i items)]) @ chunks batchSize (drop (i + batchSize) items))" .
    moreover from True have "drop i items \<noteq> []" by simp
    with less.prems have "chunks batchSize (drop i items)
        = take batchSize (drop i items) # chunks batchSize (drop (i + batchSize) items)"
      by (simp add: chunks_Cons add.commute)
    ultimately show ?thesis using True
      by (subst createBatches_loop.simps) simp
  qed
qed

lemma createBatches_chunks:
  "1 \<le> batchSize \<Longrightarrow> createBatches items batchSize = Some (chunks batchSize items)"
  by (simp add: createBatches_def createBatches_loop_chunks)

lemma runBatch_ids: "runBatch pitem type batch w = (rs, w') \<Longrightarrow> map oid rs = batch"
proof (induction batch arbitrary: w rs w')
  case Nil
  then show ?case by simp
next
  case (Cons itemId rest)
  obtain r w1 where p: "pitem itemId type w = (r, w1)" by (cases "pitem itemId type w")
  obtain os w2 where rb: "runBatch pitem type rest w1 = (os, w2)"
    by (cases "runBatch pitem type rest w1")
  from Cons.prems p rb
  have "rs = (case r of Inr res \<Rightarrow> Succeeded itemId res | Inl msg \<Rightarrow> Failed itemId msg) # os"
    by simp
  with Cons.IH[OF rb] show ?case by (cases r) simp_all
qed

lemma filter_success_count:
  "length (filter success rs) + length (filter (\<lambda>r. \<not> success r) rs) = length rs"
  by (induction rs) auto

lemma mset_filter_success:
  "mset (map oid (filter success rs)) + mset (map oid (filter (\<lambda>r. \<not> success r) rs)) = mset (map oid rs)"
  by (induction rs) auto

lemma processBatches_counts:
  assumes "processBatches pitem cancelReq None type k batches w st = (sts, evs, w')"
    and "completed (progress st) + failed (progress st) + length (concat batches) = total (progress st)"
  shows "(\<forall>s\<in>set sts. completed (progress s) + failed (progress s) \<le> total (progress s)
            \<and> total (progress s) = total (progress st))
         \<and> completed (progress (last (st # sts))) + failed (progress (last (st # sts)))
             = total (progress (last (st # sts)))
         \<and> total (progress (last (st # sts))) = total (progress st)"
  using assms
proof (induction batches arbitrary: k w st sts evs w')
  case Nil
  then show ?case by simp
next
  case (Cons batch rest)
  obtain rs w1 where rb: "runBatch pitem type batch w = (rs, w1)" by (cases "runBatch pitem type batch w")
  obtain sts2 evs2 w3 where rec:
    "processBatches pitem cancelReq None type (Suc k) rest w1 (recordBatch rs st) = (sts2, evs2, w3)"
    using prod_cases3 by blast
  from Cons.prems(1) rb rec have sts: "sts = recordBatch rs st # sts2" by simp
  from runBatch_ids[OF rb] have len: "length rs = length batch"
    by (metis length_map)
  let ?st2 = "recordBatch rs st"
  have c2: "completed (progress ?st2) + failed (progress ?st2)
              = completed (progress st) + failed (progress st) + length batch"
    and t2: "total (progress ?st2) = total (progress st)"
    using filter_success_count[of rs] len by (simp_all add: recordBatch_def Let_def)
  with Cons.prems(2) have bal: "completed (progress ?st2) + failed (progress ?st2) + length (concat rest)
      = total (progress ?st2)" by simp
  from Cons.IH[OF rec bal] t2 c2 Cons.prems(2) show ?case
    unfolding sts by auto
qed

lemma processBatches_ids:
  assumes "processBatches pitem cancelReq None type k batches w st = (sts, evs, w')"
  shows "mset (map oid (results (last (st # sts)))) + mset (map oid (errors (last (st # sts))))
           = mset (map oid (results st)) + mset (map oid (errors st)) + mset (concat batches)
         \<and> ((\<forall>r\<in>set (results st). success r) \<longrightarrow> (\<forall>r\<in>set (results (last (st # sts))). success r))
         \<and> ((\<forall>r\<in>set (errors st). \<not> success r) \<longrightarrow> (\<forall>r\<in>set (errors (last (st # sts))). \<not> success r))"
  using assms
proof (induction batches arbitrary: k w st sts evs w')
  case Nil
  then show ?case by simp
next
  case (Cons batch rest)
  obtain rs w1 where rb: "runBatch pitem type batch w = (rs, w1)" by (cases "runBatch pitem type batch w")
  obtain sts2 evs2 w3 where rec:
    "processBatches pitem cancelReq None type (Suc k) rest w1 (recordBatch rs st) = (sts2, evs2, w3)"
    using prod_cases3 by blast
  from Cons.prems(1) rb rec have sts: "sts = recordBatch rs st # sts2" by simp
  from runBatch_ids[OF rb] have ids: "map oid rs = batch" .
  let ?st2 = "recordBatch rs st"
  have m2: "mset (map oid (results ?st2)) + mset (map oid (errors ?st2))
      = mset (map oid (results st)) + mset (map oid (errors st)) + mset batch"
    using mset_filter_success[of rs] ids by (simp add: recordBatch_def Let_def)
  have s2: "(\<forall>r\<in>set (results st). success r) \<longrightarrow> (\<forall>r\<in>set (results ?st2). success r)"
    and e2: "(\<forall>r\<in>set (errors st). \<not> success r) \<longrightarrow> (\<forall>r\<in>set (errors ?st2). \<not> success r)"
    by (auto simp: recordBatch_def Let_def)
  have la: "last (st # sts) = last (?st2 # sts2)" unfolding sts by simp
  from Cons.IH[OF rec]
  have ih1: "mset (map oid (results (last (?st2 # sts2)))) + mset (map oid (errors (last (?st2 # sts2))))
           = mset (map oid (results ?st2)) + mset (map oid (errors ?st2)) + mset (concat rest)"
    and ih2: "(\<forall>r\<in>set (results ?st2). success r) \<longrightarrow> (\<forall>r\<in>set (results (last (?st2 # sts2))). success r)"
    and ih3: "(\<forall>r\<in>set (errors ?st2). \<not> success r) \<longrightarrow> (\<forall>r\<in>set (errors (last (?st2 # sts2))). \<not> success r)"
    by blast+
  have "mset (map oid (results (last (st # sts)))) + mset (map oid (errors (last (st # sts))))
           = mset (map oid (results st)) + mset (map oid (errors st)) + mset (concat (batch # rest))"
    unfolding la ih1 m2 by (simp add: add.assoc)
  moreover have "(\<forall>r\<in>set (results st). success r) \<longrightarrow> (\<forall>r\<in>set (results (last (st # sts))). success r)"
    unfolding la using s2 ih2 by blast
  moreover have "(\<forall>r\<in>set (errors st). \<not> success r) \<longrightarrow> (\<forall>r\<in>set (errors (last (st # sts))). \<not> success r)"
    unfolding la using e2 ih3 by blast
  ultimately show ?case by blast
qed

lemma processBatches_events:
  "processBatches pitem cancelReq None type k batches w st = (sts, evs, w')
   \<Longrightarrow> evs = concat (map (\<lambda>b. map Started b @ [BatchSettled b]) batches)"
proof (induction batches arbitrary: k w st sts evs w')
  case Nil
  then show ?case by simp
next
  case (Cons batch rest)
  obtain rs w1 where rb: "runBatch pitem type batch w = (rs, w1)" by (cases "runBatch pitem type batch w")
  obtain sts2 evs2 w3 where rec:
    "processBatches pitem cancelReq None type (Suc k) rest w1 (recordBatch rs st) = (sts2, evs2, w3)"
    using prod_cases3 by blast
  from Cons.prems(1) rb rec have "evs = map Started batch @ BatchSettled batch # evs2" by simp
  with Cons.IH[OF rec] show ?case by simp
qed

text \<open>The selection handler keeps the selection free of duplicates.\<close>

lemma handleSelectItem_distinct: "distinct selection \<Longrightarrow> distinct (handleSelectItem itemId selection)"
  by (simp add: handleSelectItem_def)

text \<open>
  A run during which no handler interferes. For every non-empty list of selected item ids
  and every concurrency of at least 1 (the setting absent, which means 4, or a positive
  number), a batch run whose connection validates and during which Cancel is not clicked
  terminates; in its final state \<open>completed + failed = total\<close>, the ids of the results
  and errors together are exactly the selected ids, one outcome per item, and in every state
  the run goes through \<open>completed + failed \<le> total\<close>.
\<close>

theorem batch_run_accounts_for_every_item:
  assumes "selectedItems st \<noteq> []"
    and "concurrency_setting \<noteq> Some 0"
    and "fst (validate w) = None"
  shows "\<exists>sts evs w'.
           startProcessing validate pitem cancelReq None concurrency_setting w st = Some (Ran sts evs w')
         \<and> (\<forall>s\<in>set sts. completed (progress s) + failed (progress s) \<le> total (progress s))
         \<and> total (progress (last sts)) = length (selectedItems st)
         \<and> completed (progress (last sts)) + failed (progress (last sts)) = total (progress (last sts))
         \<and> mset (map oid (results (last sts) @ errors (last sts))) = mset (selectedItems st)
         \<and> (\<forall>r\<in>set (results (last sts)). success r)
         \<and> (\<forall>r\<in>set (errors (last sts)). \<not> success r)
         \<and> (distinct (selectedItems st) \<longrightarrow> distinct (map oid (results (last sts) @ errors (last sts))))"
proof -
  define c where "c = (case concurrency_setting of None \<Rightarrow> 4 | Some c \<Rightarrow> c)"
  with assms(2) have c1: "1 \<le> c" by (cases concurrency_setting) auto
  define items where "items = selectedItems st"
  obtain w1 where v: "validate w = (None, w1)" using assms(3) by (cases "validate w") auto
  define st0 where "st0 = st\<lparr>processing := True,
      progress := \<lparr>current = 0, total = length (selectedItems st), completed = 0,
                   failed = 0, pstatus = ''processing''\<rparr>,
      results := [], errors := []\<rparr>"
  obtain sts0 evs w2 where pb:
    "processBatches pitem cancelReq None (itype st) 0 (chunks c items) w1 st0 = (sts0, evs, w2)"
    using prod_cases3 by blast
  have pi: "processItems pitem cancelReq None concurrency_setting items (itype st) w1 st0
              = Some (sts0, evs, w2)"
    using pb c1 by (simp add: processItems_def c_def createBatches_chunks)
  define fin where "fin = (last (st0 # sts0))\<lparr>processing := False\<rparr>"
  define sts where "sts = st0 # sts0 @ [fin]"
  have "startProcessing validate pitem cancelReq None concurrency_setting w st
          = (case processItems pitem cancelReq None concurrency_setting items (itype st) w1 st0 of
               None \<Rightarrow> None
             | Some (sts, evs, w2) \<Rightarrow>
                 Some (Ran (st0 # sts @ [(last (st0 # sts))\<lparr>processing := False\<rparr>]) evs w2))"
    using assms(1) v unfolding startProcessing_def st0_def items_def Let_def by simp
  then have run: "startProcessing validate pitem cancelReq None concurrency_setting w st
               = Some (Ran sts evs w2)"
    unfolding pi sts_def fin_def by simp
  have bal: "completed (progress st0) + failed (progress st0) + length (concat (chunks c items))
               = total (progress st0)"
    using c1 by (simp add: st0_def concat_chunks items_def)
  from processBatches_counts[OF pb bal]
  have mid: "\<forall>s\<in>set sts0. completed (progress s) + failed (progress s) \<le> total (progress s)"
    and end1: "completed (progress (last (st0 # sts0))) + failed (progress (last (st0 # sts0)))
                 = total (progress (last (st0 # sts0)))"
    and end2: "total (progress (last (st0 # sts0))) = total (progress st0)"
    by blast+
  have la: "last sts = fin" by (simp add: sts_def)
  have pf: "progress fin = progress (last (st0 # sts0))"
    and rf: "results fin = results (last (st0 # sts0))"
    and ef: "errors fin = errors (last (st0 # sts0))"
    by (simp_all add: fin_def)
  have inv: "\<forall>s\<in>set sts. completed (progress s) + failed (progress s) \<le> total (progress s)"
  proof
    fix s assume "s \<in> set sts"
    then consider "s = st0" | "s \<in> set sts0" | "s = fin" by (auto simp: sts_def)
    then show "completed (progress s) + failed (progress s) \<le> total (progress s)"
    proof cases
      case 1
      then show ?thesis by (simp add: st0_def)
    next
      case 2
      with mid show ?thesis by blast
    next
      case 3
      with end1 pf show ?thesis by simp
    qed
  qed
  from processBatches_ids[OF pb]
  have ids0: "mset (map oid (results (last (st0 # sts0)))) + mset (map oid (errors (last (st0 # sts0))))
           = mset (map oid (results st0)) + mset (map oid (errors st0)) + mset (concat (chunks c items))"
    and suc0: "(\<forall>r\<in>set (results st0). success r) \<longrightarrow> (\<forall>r\<in>set (results (last (st0 # sts0))). success r)"
    and err0: "(\<forall>r\<in>set (errors st0). \<not> success r) \<longrightarrow> (\<forall>r\<in>set (errors (last (st0 # sts0))). \<not> success r)"
    by blast+
  have ids: "mset (map oid (results fin @ errors fin)) = mset items"
    using ids0 c1 unfolding rf ef by (simp add: st0_def concat_chunks)
  have suc: "\<forall>r\<in>set (results fin). success r"
    using suc0 unfolding rf by (simp add: st0_def)
  have err: "\<forall>r\<in>set (errors fin). \<not> success r"
    using err0 unfolding ef by (simp add: st0_def)
  have dis: "distinct items \<longrightarrow> distinct (map oid (results fin @ errors fin))"
    using ids by (metis mset_eq_imp_distinct_iff)
  have tot: "total (progress fin) = length items"
    using end2 pf by (simp add: st0_def items_def)
  have cf: "completed (progress fin) + failed (progress fin) = total (progress fin)"
    using end1 pf by simp
  from run inv tot cf ids suc err dis show ?thesis
    unfolding la[symmetric] items_def by blast
qed

theorem batch_run_accounts_for_every_item_witness:
  "selectedItems (selected [''1'', ''2'', ''3''] :: unit ui_state) \<noteq> []
   \<and> Some 2 \<noteq> Some (0::nat)
   \<and> fst (always_valid ()) = None
   \<and> (\<exists>sts evs w'.
         startProcessing always_valid fails_on_2 no_remote_cancel None (Some 2) ()
           (selected [''1'', ''2'', ''3'']) = Some (Ran sts evs w')
       \<and> total (progress (last sts)) = 3
       \<and> completed (progress (last sts)) + failed (progress (last sts)) = total (progress (last sts))
       \<and> mset (map oid (results (last sts) @ errors (last sts))) = mset [''1'', ''2'', ''3''])"
proof -
  have h1: "selectedItems (selected [''1'', ''2'', ''3''] :: unit ui_state) \<noteq> []"
    by (simp add: selected_def)
  have h2: "Some 2 \<noteq> Some (0::nat)" by simp
  have h3: "fst (always_valid ()) = None" by (simp add: always_valid_def)
  from batch_run_accounts_for_every_item[where st = "selected [''1'', ''2'', ''3'']"
      and concurrency_setting = "Some 2" and validate = always_valid and w = "()"
      and pitem = fails_on_2 and cancelReq = no_remote_cancel, OF h1 h2 h3]
  obtain sts evs w' where
    "startProcessing always_valid fails_on_2 no_remote_cancel None (Some 2) ()
           (selected [''1'', ''2'', ''3'']) = Some (Ran sts evs w')"
    "total (progress (last sts)) = length (selectedItems (selected [''1'', ''2'', ''3''] :: unit ui_state))"
    "completed (progress (last sts)) + failed (progress (last sts)) = total (progress (last sts))"
    "mset (map oid (results (last sts) @ errors (last sts)))
       = mset (selectedItems (selected [''1'', ''2'', ''3''] :: unit ui_state))"
    by blast
  then have "\<exists>sts evs w'.
         startProcessing always_valid fails_on_2 no_remote_cancel None (Some 2) ()
           (selected [''1'', ''2'', ''3'']) = Some (Ran sts evs w')
       \<and> total (progress (last sts)) = 3
       \<and> completed (progress (last sts)) + failed (progress (last sts)) = total (progress (last sts))
       \<and> mset (map oid (results (last sts) @ errors (last sts))) = mset [''1'', ''2'', ''3'']"
    by (auto simp: selected_def)
  with h1 h2 h3 show ?thesis by blast
qed

text \<open>
  Claim C1 fails on the code. Three items, concurrency 1, Cancel clicked while item 2 is in
  flight: \<open>cancelProcessing\<close> resets the counters and the total to 0 and the loop goes on,
  so the run passes through a state with \<open>completed + failed = 1 > 0 = total\<close> and ends
  with \<open>completed + failed = 2\<close> and \<open>total = 0\<close>, for three selected items. The states
  are given as (completed, failed, total).
\<close>

theorem cancelled_run_breaks_the_counters:
  "map_option (map counters)
     (map_option run_states
        (startProcessing always_valid fails_on_2 no_remote_cancel (Some 1) (Some 1) ()
           (selected [''1'', ''2'', ''3''])))
     = Some [(0, 0, 3), (1, 0, 3), (0, 0, 0), (0, 1, 0), (1, 1, 0), (1, 1, 0)]"
  by (simp add: counters_def
      startProcessing_def processItems_def createBatches_chunks chunks.simps
      selected_def always_valid_def fails_on_2_def no_remote_cancel_def Let_def
      recordBatch_def cancelProcessing_def)

text \<open>
  Claim C9, as amended. For every item list and concurrency of at least 1, the dispatcher
  partitions the input statically: \<open>createBatches\<close> cuts the list into consecutive chunks of
  exactly \<open>concurrency\<close> items (the last chunk may be shorter), and \<open>processItems\<close> starts
  all items of a chunk together and waits for the whole chunk to settle before it starts any
  item of the next chunk. So at most \<open>concurrency\<close> items are in flight, but there is no
  shared queue from which a free worker pulls the next item.
\<close>

theorem batches_are_static_chunks_with_barrier:
  assumes "1 \<le> concurrency"
  shows "createBatches itemIds concurrency = Some (chunks concurrency itemIds)
         \<and> concat (chunks concurrency itemIds) = itemIds
         \<and> (\<forall>b\<in>set (chunks concurrency itemIds). b \<noteq> [] \<and> length b \<le> concurrency)
         \<and> (\<forall>j. Suc j < length (chunks concurrency itemIds)
                 \<longrightarrow> length (chunks concurrency itemIds ! j) = concurrency)
         \<and> (\<exists>sts w'.
               processItems pitem cancelReq None (Some concurrency) itemIds type w st
                 = Some (sts,
                         concat (map (\<lambda>b. map Started b @ [BatchSettled b])
                                   (chunks concurrency itemIds)),
                         w'))"
proof -
  obtain sts evs w' where pb:
    "processBatches pitem cancelReq None type 0 (chunks concurrency itemIds) w st = (sts, evs, w')"
    using prod_cases3 by blast
  from processBatches_events[OF pb]
  have "processItems pitem cancelReq None (Some concurrency) itemIds type w st
          = Some (sts, concat (map (\<lambda>b. map Started b @ [BatchSettled b])
                                 (chunks concurrency itemIds)), w')"
    using pb assms by (simp add: processItems_def createBatches_chunks)
  then have ev: "\<exists>sts w'.
               processItems pitem cancelReq None (Some concurrency) itemIds type w st
                 = Some (sts,
                         concat (map (\<lambda>b. map Started b @ [BatchSettled b])
                                   (chunks concurrency itemIds)),
                         w')" by blast
  from assms have "\<forall>b\<in>set (chunks concurrency itemIds). b \<noteq> [] \<and> length b \<le> concurrency"
    using chunks_bounded by blast
  moreover from assms have "\<forall>j. Suc j < length (chunks concurrency itemIds)
                 \<longrightarrow> length (chunks concurrency itemIds ! j) = concurrency"
    using chunks_full by blast
  ultimately show ?thesis
    using assms ev by (simp add: createBatches_chunks concat_chunks)
qed

theorem batches_are_static_chunks_with_barrier_witness:
  "(1::nat) \<le> 2
   \<and> createBatches [''a'', ''b'', ''c''] 2 = Some (chunks 2 [''a'', ''b'', ''c''])
   \<and> concat (chunks 2 [''a'', ''b'', ''c'']) = [''a'', ''b'', ''c'']"
  using batches_are_static_chunks_with_barrier[of 2 "[''a'', ''b'', ''c'']"
      fails_on_2 no_remote_cancel Scenes "()" "selected [''a'', ''b'', ''c'']"]
  by simp

text \<open>
  The claim as stated fails: with three items and concurrency 2 the input is cut into the
  chunks \<open>[a, b]\<close> and \<open>[c]\<close>, and \<open>c\<close> is started only after the whole first chunk has
  settled.
\<close>

theorem dispatch_is_chunked_not_pooled:
  "createBatches [''a'', ''b'', ''c''] 2 = Some [[''a'', ''b''], [''c'']]
   \<and> map_option (fst \<circ> snd)
         (processItems fails_on_2 no_remote_cancel None (Some 2) [''a'', ''b'', ''c''] Scenes ()
            (selected [''a'', ''b'', ''c'']))
       = Some [Started ''a'', Started ''b'', BatchSettled [''a'', ''b''],
               Started ''c'', BatchSettled [''c'']]"
  by (simp add: createBatches_chunks chunks.simps processItems_def fails_on_2_def Let_def)

text \<open>
  Claim C6 fails on the code. Four items, concurrency 2, Cancel clicked while the first batch
  is in flight: the second batch is started all the same, and the run ends with
  \<open>total = 0\<close> and four outcomes counted.
\<close>

theorem cancel_does_not_stop_dispatch:
  "map_option run_events
      (startProcessing always_valid fails_on_2 no_remote_cancel (Some 0) (Some 2) ()
         (selected [''1'', ''2'', ''3'', ''4'']))
     = Some [Started ''1'', Started ''2'', CancelClicked, BatchSettled [''1'', ''2''],
             Started ''3'', Started ''4'', BatchSettled [''3'', ''4'']]
   \<and> map_option final_progress
      (startProcessing always_valid fails_on_2 no_remote_cancel (Some 0) (Some 2) ()
         (selected [''1'', ''2'', ''3'', ''4'']))
     = Some \<lparr>current = 0, total = 0, completed = 3, failed = 1, pstatus = ''cancelled''\<rparr>"
  by (simp add: final_progress_def
      startProcessing_def processItems_def createBatches_chunks chunks.simps
      selected_def always_valid_def fails_on_2_def no_remote_cancel_def Let_def
      recordBatch_def cancelProcessing_def)

section \<open>Properties of the result applier\<close>

lemma perform_requests: "perform q c = (d, c') \<Longrightarrow> requests c' = requests c"
  by (cases q) (auto simp: Let_def split: option.splits if_splits)

lemma perform_FindTag: "perform (FindTag n) c = (d, c') \<Longrightarrow> c' = c"
  by simp

lemma perform_marker:
  "perform (CreateSceneMarker s t secs ids) c = (d, c')
     \<Longrightarrow> cat_tags c' = cat_tags c \<and> scene_tags c' = scene_tags c \<and> image_tags c' = image_tags c"
  by (auto split: if_splits)

lemma graphql_cases:
  assumes "graphql faulty q c = (r, c')"
  obtains msg where "faulty (requests c) q = Some msg" "r = Inl msg"
      "c' = c\<lparr>requests := requests c @ [q]\<rparr>"
  | d where "faulty (requests c) q = None" "r = Inr d"
      "perform q (c\<lparr>requests := requests c @ [q]\<rparr>) = (d, c')"
proof (cases "faulty (requests c) q")
  case None
  obtain d c2 where p: "perform q (c\<lparr>requests := requests c @ [q]\<rparr>) = (d, c2)"
    by (cases "perform q (c\<lparr>requests := requests c @ [q]\<rparr>)")
  with assms None have "r = Inr d" "c' = c2" by (simp_all add: graphql_def Let_def)
  with that(2) None p show ?thesis by simp
next
  case (Some msg)
  with assms have "r = Inl msg" "c' = c\<lparr>requests := requests c @ [q]\<rparr>"
    by (simp_all add: graphql_def Let_def)
  with that(1) Some show ?thesis by simp
qed

lemma graphql_frame:
  assumes "graphql faulty q c = (r, c')"
  shows "requests c' = requests c @ [q]"
    and "r = Inl msg \<Longrightarrow> faulty (requests c) q = Some msg \<and> same_tags c c' \<and> scene_markers c' = scene_markers c"
    and "(\<exists>n. q = FindTag n) \<Longrightarrow> same_tags c c' \<and> scene_markers c' = scene_markers c"
    and "is_marker_create q \<Longrightarrow> same_tags c c'"
proof -
  show "requests c' = requests c @ [q]"
    by (rule graphql_cases[OF assms]) (auto dest: perform_requests)
  show "faulty (requests c) q = Some msg \<and> same_tags c c' \<and> scene_markers c' = scene_markers c"
    if "r = Inl msg"
    by (rule graphql_cases[OF assms]) (use that in \<open>auto simp: same_tags_def\<close>)
  show "same_tags c c' \<and> scene_markers c' = scene_markers c" if "\<exists>n. q = FindTag n"
    by (rule graphql_cases[OF assms]) (use that in \<open>auto simp: same_tags_def\<close>)
  show "same_tags c c'" if "is_marker_create q"
  proof (cases q)
    case (CreateSceneMarker s t secs ids)
    from assms show ?thesis
    proof (rule graphql_cases)
      fix m assume "c' = c\<lparr>requests := requests c @ [q]\<rparr>"
      then show ?thesis by (simp add: same_tags_def)
    next
      fix d assume "perform q (c\<lparr>requests := requests c @ [q]\<rparr>) = (d, c')"
      from perform_marker[OF this[unfolded CreateSceneMarker]] show ?thesis
        by (simp add: same_tags_def)
    qed
  qed (use that in simp_all)
qed

lemma getTagByName_frame:
  assumes "getTagByName faulty n c = (t, c')"
  shows "same_tags c c' \<and> scene_markers c' = scene_markers c"
proof -
  obtain r c1 where g: "graphql faulty (FindTag n) c = (r, c1)" by (cases "graphql faulty (FindTag n) c")
  with assms have "c' = c1" by (auto simp: getTagByName_def split: sum.splits gdata.splits)
  with graphql_frame(3)[OF g] show ?thesis by blast
qed

lemma same_tags_refl: "same_tags c c"
  by (simp add: same_tags_def)

lemma same_tags_trans: "same_tags a b \<Longrightarrow> same_tags b c \<Longrightarrow> same_tags a c"
  by (simp add: same_tags_def)

lemma markerTagIds_frame:
  "markerTagIds faulty names acc c = (ids, c') \<Longrightarrow> same_tags c c' \<and> scene_markers c' = scene_markers c"
proof (induction names arbitrary: acc c)
  case Nil
  then show ?case by (simp add: same_tags_refl)
next
  case (Cons n rest)
  obtain t c1 where g: "getTagByName faulty n c = (t, c1)" by (cases "getTagByName faulty n c")
  from getTagByName_frame[OF g] have f1: "same_tags c c1" "scene_markers c1 = scene_markers c" by simp_all
  from Cons.prems g obtain acc' where "markerTagIds faulty rest acc' c1 = (ids, c')"
    by (cases t) auto
  from Cons.IH[OF this] f1 show ?case by (auto intro: same_tags_trans)
qed

lemma createSceneMarker_frame:
  assumes "createSceneMarker faulty s t secs names c = (e, c')"
  shows "same_tags c c'"
    and "e = Some msg \<Longrightarrow> \<exists>q rs. requests c' = rs @ [q] \<and> is_marker_create q \<and> faulty rs q = Some msg"
proof -
  obtain ids c1 where m: "markerTagIds faulty names [] c = (ids, c1)"
    by (cases "markerTagIds faulty names [] c")
  obtain r c2 where g: "graphql faulty (CreateSceneMarker s t secs ids) c1 = (r, c2)"
    by (cases "graphql faulty (CreateSceneMarker s t secs ids) c1")
  from assms m g have c': "c' = c2" and e: "e = (case r of Inl msg \<Rightarrow> Some msg | Inr d \<Rightarrow> None)"
    by (auto simp: createSceneMarker_def split: sum.splits)
  from markerTagIds_frame[OF m] graphql_frame(4)[OF g] show "same_tags c c'"
    unfolding c' by (auto intro: same_tags_trans)
  show "\<exists>q rs. requests c' = rs @ [q] \<and> is_marker_create q \<and> faulty rs q = Some msg" if "e = Some msg"
  proof -
    from that e have "r = Inl msg" by (cases r) auto
    from graphql_frame(1)[OF g] graphql_frame(2)[OF g this] show ?thesis
      unfolding c' by (intro exI[of _ "CreateSceneMarker s t secs ids"] exI[of _ "requests c1"]) simp
  qed
qed

lemma createMarkers_frame:
  assumes "createMarkers faulty s ms c = (e, c')"
  shows "same_tags c c' \<and> (e = Some msg \<longrightarrow> (\<exists>q rs. requests c' = rs @ [q] \<and> is_marker_create q \<and> faulty rs q = Some msg))"
  using assms
proof (induction ms arbitrary: c)
  case Nil
  then show ?case by (simp add: same_tags_refl)
next
  case (Cons m rest)
  obtain e1 c1 where g: "createSceneMarker faulty s (title m) (seconds m) (marker_tags m) c = (e1, c1)"
    by (cases "createSceneMarker faulty s (title m) (seconds m) (marker_tags m) c")
  show ?case
  proof (cases e1)
    case None
    with Cons.prems g have "createMarkers faulty s rest c1 = (e, c')" by simp
    from Cons.IH[OF this] createSceneMarker_frame(1)[OF g] show ?thesis
      by (auto intro: same_tags_trans)
  next
    case (Some m1)
    with Cons.prems g have "e = Some m1" "c' = c1" by simp_all
    with createSceneMarker_frame[OF g] Some show ?thesis by auto
  qed
qed


lemma request_log:
  "request container timeout r w = (res, w') \<Longrightarrow> w' = w\<lparr>container_log := container_log w @ [r]\<rparr>"
  by (auto simp: request_def Let_def split: reply.splits if_splits)

lemma retry_of_resolving_call:
  "retryRequest (\<lambda>w0. case f w0 of (r, w1) \<Rightarrow> (Inr r, w1)) 3 1000 rnd w
     = (Inr (fst (f w)), snd (f w), [Call 1, Return 1])"
  by (simp add: retryRequest_def retryLoop.simps split: prod.splits)

lemma processWithRetry_once:
  "processSceneWithRetry container timeout rnd i w
     = (Inr (fst (processScene container timeout i w)), snd (processScene container timeout i w),
        [Call 1, Return 1])"
  "processImageWithRetry container timeout rnd i w
     = (Inr (fst (processImage container timeout i w)), snd (processImage container timeout i w),
        [Call 1, Return 1])"
  by (simp_all add: processSceneWithRetry_def processImageWithRetry_def retry_of_resolving_call)

lemma processItem_ok:
  assumes "container (container_log w) (process_request type i) = HttpReply st txt res"
    and "200 \<le> st \<and> st \<le> 299"
  shows "processItem container timeout faulty rnd i type w =
     (case applyResultsToStash faulty i type res (catalog w) of
        (Some msg, c1) \<Rightarrow>
          (Inl msg, w\<lparr>container_log := container_log w @ [process_request type i], catalog := c1\<rparr>)
      | (None, c1) \<Rightarrow>
          (Inr res, w\<lparr>container_log := container_log w @ [process_request type i], catalog := c1\<rparr>))"
  using assms
  by (cases type)
     (auto simp: processItem_def processWithRetry_once processScene_def processImage_def
        request_def process_request_def Let_def split: prod.splits option.splits)

lemma processItem_http_error:
  assumes "container (container_log w) (process_request type i) = HttpReply st txt res"
    and "\<not> (200 \<le> st \<and> st \<le> 299)"
  shows "processItem container timeout faulty rnd i type w =
     (Inl (''HTTP '' @ toString st @ '': '' @ txt),
      w\<lparr>container_log := container_log w @ [process_request type i]\<rparr>)"
  using assms
  by (cases type)
     (auto simp: processItem_def processWithRetry_once processScene_def processImage_def
        request_def process_request_def Let_def split: prod.splits option.splits)




text \<open>Every request leaves a catalog that extends the old one without a duplicate.\<close>

lemma extends_without_duplicates_iff:
  "extends_without_duplicates c c' \<longleftrightarrow>
     (\<exists>new newm. cat_tags c' = cat_tags c @ new
        \<and> distinct (map snd new)
        \<and> set (map snd new) \<inter> set (map snd (cat_tags c)) = {}
        \<and> scene_markers c' = scene_markers c @ newm
        \<and> distinct (map marker_key newm)
        \<and> set (map marker_key newm) \<inter> set (map marker_key (scene_markers c)) = {})"
  (is "?L \<longleftrightarrow> ?R")
proof
  assume l: ?L
  let ?new = "drop (length (cat_tags c)) (cat_tags c')"
  let ?newm = "drop (length (scene_markers c)) (scene_markers c')"
  from l have t: "take (length (cat_tags c)) (cat_tags c') = cat_tags c"
    and m: "take (length (scene_markers c)) (scene_markers c') = scene_markers c"
    by (simp_all add: extends_without_duplicates_def Let_def)
  have "cat_tags c' = cat_tags c @ ?new" using t by (metis append_take_drop_id)
  moreover have "scene_markers c' = scene_markers c @ ?newm" using m by (metis append_take_drop_id)
  ultimately show ?R using l
    by (intro exI[of _ ?new] exI[of _ ?newm]) (simp add: extends_without_duplicates_def Let_def)
next
  assume ?R
  then show ?L by (elim exE conjE) (simp add: extends_without_duplicates_def Let_def)
qed

lemma extends_refl: "extends_without_duplicates c c"
  by (simp add: extends_without_duplicates_def)

lemma extends_same:
  "cat_tags c' = cat_tags c \<Longrightarrow> scene_markers c' = scene_markers c \<Longrightarrow> extends_without_duplicates c c'"
  by (simp add: extends_without_duplicates_def)

lemma extends_trans:
  assumes "extends_without_duplicates a b" and "extends_without_duplicates b c"
  shows "extends_without_duplicates a c"
proof -
  from assms(1) obtain n1 m1 where 1: "cat_tags b = cat_tags a @ n1" "distinct (map snd n1)"
    "set (map snd n1) \<inter> set (map snd (cat_tags a)) = {}"
    "scene_markers b = scene_markers a @ m1" "distinct (map marker_key m1)"
    "set (map marker_key m1) \<inter> set (map marker_key (scene_markers a)) = {}"
    unfolding extends_without_duplicates_iff by blast
  from assms(2) obtain n2 m2 where 2: "cat_tags c = cat_tags b @ n2" "distinct (map snd n2)"
    "set (map snd n2) \<inter> set (map snd (cat_tags b)) = {}"
    "scene_markers c = scene_markers b @ m2" "distinct (map marker_key m2)"
    "set (map marker_key m2) \<inter> set (map marker_key (scene_markers b)) = {}"
    unfolding extends_without_duplicates_iff by blast
  have t: "cat_tags c = cat_tags a @ (n1 @ n2)" using 1(1) 2(1) by simp
  have td: "distinct (map snd (n1 @ n2))" using 1(1,2) 2(2,3) by auto
  have ti: "set (map snd (n1 @ n2)) \<inter> set (map snd (cat_tags a)) = {}"
    using 1(1,3) 2(3) by auto
  have m: "scene_markers c = scene_markers a @ (m1 @ m2)" using 1(4) 2(4) by simp
  have md: "distinct (map marker_key (m1 @ m2))" using 1(4,5) 2(5,6) by auto
  have mi: "set (map marker_key (m1 @ m2)) \<inter> set (map marker_key (scene_markers a)) = {}"
    using 1(4,6) 2(6) by auto
  from t td ti m md mi show ?thesis
    unfolding extends_without_duplicates_iff by blast
qed

lemma find_None_name: "find (\<lambda>t. snd t = n) ts = None \<Longrightarrow> n \<notin> set (map snd ts)"
  by (auto simp: find_None_iff)

lemma perform_extends: "perform q c = (d, c') \<Longrightarrow> extends_without_duplicates c c'"
proof (cases q)
  case (FindTag n)
  assume "perform q c = (d, c')"
  with FindTag show ?thesis by (simp add: extends_refl)
next
  case (CreateTag n)
  assume p: "perform q c = (d, c')"
  show ?thesis
  proof (cases "find (\<lambda>t. snd t = n) (cat_tags c)")
    case None
    from find_None_name[OF None] p CreateTag None show ?thesis
      unfolding extends_without_duplicates_iff by (auto simp: Let_def)
  next
    case (Some t)
    with p CreateTag show ?thesis by (simp add: extends_refl)
  qed
next
  case (BulkSceneUpdate s ids)
  assume "perform q c = (d, c')"
  with BulkSceneUpdate show ?thesis by (auto intro: extends_same)
next
  case (BulkImageUpdate s ids)
  assume "perform q c = (d, c')"
  with BulkImageUpdate show ?thesis by (auto intro: extends_same)
next
  case (CreateSceneMarker s t secs ids)
  assume p: "perform q c = (d, c')"
  show ?thesis
  proof (cases "(s, t, secs) \<in> set (map marker_key (scene_markers c))")
    case True
    with p CreateSceneMarker show ?thesis by (simp add: extends_refl)
  next
    case False
    with p CreateSceneMarker show ?thesis
      unfolding extends_without_duplicates_iff by auto
  qed
qed

lemma graphql_extends: "graphql faulty q c = (r, c') \<Longrightarrow> extends_without_duplicates c c'"
proof (erule graphql_cases)
  fix msg assume "c' = c\<lparr>requests := requests c @ [q]\<rparr>"
  then show ?thesis by (simp add: extends_same)
next
  fix d assume "perform q (c\<lparr>requests := requests c @ [q]\<rparr>) = (d, c')"
  from perform_extends[OF this] show ?thesis
    by (simp add: extends_without_duplicates_def)
qed

lemma getTagByName_extends:
  "getTagByName faulty n c = (t, c') \<Longrightarrow> extends_without_duplicates c c'"
  using getTagByName_frame[of faulty n c t c'] by (simp add: same_tags_def extends_same)

lemma createTagIfNotExists_extends:
  assumes "createTagIfNotExists faulty n c = (r, c')"
  shows "extends_without_duplicates c c'"
proof -
  obtain t c1 where g: "getTagByName faulty n c = (t, c1)" by (cases "getTagByName faulty n c")
  show ?thesis
  proof (cases t)
    case (Some tag)
    with assms g have "c' = c1" by (simp add: createTagIfNotExists_def)
    with getTagByName_extends[OF g] show ?thesis by simp
  next
    case None
    obtain r2 c2 where q: "graphql faulty (CreateTag n) c1 = (r2, c2)"
      by (cases "graphql faulty (CreateTag n) c1")
    with assms g None have "c' = c2"
      by (auto simp: createTagIfNotExists_def split: sum.splits gdata.splits)
    with getTagByName_extends[OF g] graphql_extends[OF q] show ?thesis
      by (auto intro: extends_trans)
  qed
qed

lemma createTags_extends:
  "createTags faulty names acc c = (ids, c') \<Longrightarrow> extends_without_duplicates c c'"
proof (induction names arbitrary: acc c)
  case Nil
  then show ?case by (simp add: extends_refl)
next
  case (Cons n rest)
  obtain r c1 where g: "createTagIfNotExists faulty n c = (r, c1)"
    by (cases "createTagIfNotExists faulty n c")
  from Cons.prems g obtain acc' where "createTags faulty rest acc' c1 = (ids, c')"
    by (cases r) auto
  from Cons.IH[OF this] createTagIfNotExists_extends[OF g] show ?case
    by (auto intro: extends_trans)
qed

lemma applyTags_extends:
  assumes "applyTags faulty itemId type result c = (e, c')"
  shows "extends_without_duplicates c c'"
proof (cases "tags result = []")
  case True
  with assms show ?thesis by (simp add: applyTags_def extends_refl)
next
  case False
  obtain ids c1 where t: "createTags faulty (tags result) [] c = (ids, c1)"
    by (cases "createTags faulty (tags result) [] c")
  show ?thesis
  proof (cases "ids = []")
    case True
    with assms False t have "c' = c1" by (simp add: applyTags_def)
    with createTags_extends[OF t] show ?thesis by simp
  next
    case F: False
    let ?q = "if type = Scenes then BulkSceneUpdate itemId ids else BulkImageUpdate itemId ids"
    obtain r c2 where q: "graphql faulty ?q c1 = (r, c2)" by (cases "graphql faulty ?q c1")
    with assms False t F have "c' = c2"
      by (auto simp: applyTags_def addTagsToScene_def addTagsToImage_def split: sum.splits if_splits)
    with createTags_extends[OF t] graphql_extends[OF q] show ?thesis
      by (auto intro: extends_trans)
  qed
qed

lemma createSceneMarker_extends:
  assumes "createSceneMarker faulty s t secs names c = (e, c')"
  shows "extends_without_duplicates c c'"
proof -
  obtain ids c1 where m: "markerTagIds faulty names [] c = (ids, c1)"
    by (cases "markerTagIds faulty names [] c")
  obtain r c2 where g: "graphql faulty (CreateSceneMarker s t secs ids) c1 = (r, c2)"
    by (cases "graphql faulty (CreateSceneMarker s t secs ids) c1")
  from assms m g have c': "c' = c2" by (auto simp: createSceneMarker_def split: sum.splits)
  from markerTagIds_frame[OF m] have "extends_without_duplicates c c1"
    by (simp add: same_tags_def extends_same)
  with graphql_extends[OF g] show ?thesis unfolding c' by (auto intro: extends_trans)
qed

lemma createMarkers_extends:
  "createMarkers faulty s ms c = (e, c') \<Longrightarrow> extends_without_duplicates c c'"
proof (induction ms arbitrary: c)
  case Nil
  then show ?case by (simp add: extends_refl)
next
  case (Cons m rest)
  obtain e1 c1 where g: "createSceneMarker faulty s (title m) (seconds m) (marker_tags m) c = (e1, c1)"
    by (cases "createSceneMarker faulty s (title m) (seconds m) (marker_tags m) c")
  show ?case
  proof (cases e1)
    case None
    with Cons.prems g have "createMarkers faulty s rest c1 = (e, c')" by simp
    from Cons.IH[OF this] createSceneMarker_extends[OF g] show ?thesis
      by (auto intro: extends_trans)
  next
    case (Some m1)
    with Cons.prems g have "c' = c1" by simp
    with createSceneMarker_extends[OF g] show ?thesis by simp
  qed
qed

lemma applyMarkers_extends:
  assumes "applyMarkers faulty itemId type result c = (e, c')"
  shows "extends_without_duplicates c c'"
proof (cases "type = Scenes \<and> markers result \<noteq> []")
  case True
  with assms have "createMarkers faulty itemId (markers result) c = (e, c')"
    by (simp add: applyMarkers_def)
  then show ?thesis by (rule createMarkers_extends)
next
  case False
  with assms have "c' = c" by (auto simp: applyMarkers_def)
  then show ?thesis by (simp add: extends_refl)
qed

lemma applyResultsToStash_extends:
  assumes "applyResultsToStash faulty itemId type result c = (e, c')"
  shows "extends_without_duplicates c c'"
proof -
  obtain e1 c1 where t: "applyTags faulty itemId type result c = (e1, c1)"
    by (cases "applyTags faulty itemId type result c")
  show ?thesis
  proof (cases e1)
    case (Some msg)
    with assms t have "c' = c1" by (simp add: applyResultsToStash_def)
    with applyTags_extends[OF t] show ?thesis by simp
  next
    case None
    with assms t have "applyMarkers faulty itemId type result c1 = (e, c')"
      by (simp add: applyResultsToStash_def)
    from applyMarkers_extends[OF this] applyTags_extends[OF t] show ?thesis
      by (auto intro: extends_trans)
  qed
qed

text \<open>Resolve-or-create on a name that the catalog holds.\<close>

lemma createTagIfNotExists_existing:
  assumes "tag_id (cat_tags c) n = Some j"
    and "createTagIfNotExists faulty n c = (r, c')"
  shows "cat_tags c' = cat_tags c \<and> (r = None \<or> r = Some j)
         \<and> (faulty (requests c) (FindTag n) = None \<longrightarrow> r = Some j)"
proof -
  from assms(1) obtain t where f: "find (\<lambda>t. snd t = n) (cat_tags c) = Some t" and j: "fst t = j"
    by (auto simp: tag_id_def)
  let ?c1 = "c\<lparr>requests := requests c @ [FindTag n]\<rparr>"
  show ?thesis
  proof (cases "faulty (requests c) (FindTag n)")
    case None
    with f have "getTagByName faulty n c = (Some t, ?c1)"
      by (simp add: getTagByName_def graphql_def Let_def)
    with assms(2) j None show ?thesis by (auto simp: createTagIfNotExists_def)
  next
    case (Some msg)
    then have g: "getTagByName faulty n c = (None, ?c1)"
      by (simp add: getTagByName_def graphql_def Let_def)
    show ?thesis
    proof (cases "faulty (requests ?c1) (CreateTag n)")
      case None
      with f have "graphql faulty (CreateTag n) ?c1
                     = (Inr (TagCreated (fst t)), ?c1\<lparr>requests := requests ?c1 @ [CreateTag n]\<rparr>)"
        by (simp add: graphql_def Let_def)
      with assms(2) g j Some show ?thesis by (auto simp: createTagIfNotExists_def)
    next
      case S2: (Some msg2)
      then have "graphql faulty (CreateTag n) ?c1
                     = (Inl msg2, ?c1\<lparr>requests := requests ?c1 @ [CreateTag n]\<rparr>)"
        by (simp add: graphql_def Let_def)
      with assms(2) g Some show ?thesis by (auto simp: createTagIfNotExists_def)
    qed
  qed
qed

text \<open>A catalog that rejects nothing.\<close>

lemma tag_id_append: "tag_id ts n = Some i \<Longrightarrow> tag_id (ts @ new) n = Some i"
  by (induction ts) (auto simp: tag_id_def)

lemma tag_id_append_new: "tag_id ts n = None \<Longrightarrow> tag_id (ts @ [(i, n)]) n = Some i"
  by (induction ts) (auto simp: tag_id_def)

lemma getTagByName_nf:
  "getTagByName no_faults n c
     = (find (\<lambda>t. snd t = n) (cat_tags c), c\<lparr>requests := requests c @ [FindTag n]\<rparr>)"
  by (simp add: getTagByName_def graphql_def no_faults_def Let_def)

lemma createTagIfNotExists_nf:
  "\<exists>i new c'. createTagIfNotExists no_faults n c = (Some i, c')
      \<and> cat_tags c' = cat_tags c @ new
      \<and> tag_id (cat_tags c') n = Some i
      \<and> (tag_id (cat_tags c) n \<noteq> None \<longrightarrow> new = [])
      \<and> scene_tags c' = scene_tags c \<and> image_tags c' = image_tags c
      \<and> scene_markers c' = scene_markers c"
proof (cases "find (\<lambda>t. snd t = n) (cat_tags c)")
  case None
  then have tn: "tag_id (cat_tags c) n = None" by (simp add: tag_id_def)
  from tag_id_append_new[OF tn] None tn show ?thesis
    by (simp add: createTagIfNotExists_def getTagByName_nf graphql_def no_faults_def Let_def)
next
  case (Some t)
  then show ?thesis
    by (cases t) (simp add: createTagIfNotExists_def getTagByName_nf tag_id_def)
qed

lemma createTags_nf:
  "\<exists>new c'. createTags no_faults names acc c
                 = (acc @ map (\<lambda>n. the (tag_id (cat_tags c') n)) names, c')
      \<and> cat_tags c' = cat_tags c @ new
      \<and> (\<forall>n\<in>set names. tag_id (cat_tags c') n \<noteq> None)
      \<and> ((\<forall>n\<in>set names. tag_id (cat_tags c) n \<noteq> None) \<longrightarrow> new = [])
      \<and> scene_tags c' = scene_tags c \<and> image_tags c' = image_tags c
      \<and> scene_markers c' = scene_markers c"
proof (induction names arbitrary: acc c)
  case Nil
  then show ?case by simp
next
  case (Cons n rest)
  from createTagIfNotExists_nf[of n c] obtain i new1 c1 where
    s1: "createTagIfNotExists no_faults n c = (Some i, c1)"
    and t1: "cat_tags c1 = cat_tags c @ new1"
    and i1: "tag_id (cat_tags c1) n = Some i"
    and n1: "tag_id (cat_tags c) n \<noteq> None \<longrightarrow> new1 = []"
    and f1: "scene_tags c1 = scene_tags c" "image_tags c1 = image_tags c"
            "scene_markers c1 = scene_markers c"
    by blast
  from Cons.IH[of "acc @ [i]" c1] obtain new2 c' where
    s2: "createTags no_faults rest (acc @ [i]) c1
           = ((acc @ [i]) @ map (\<lambda>n. the (tag_id (cat_tags c') n)) rest, c')"
    and t2: "cat_tags c' = cat_tags c1 @ new2"
    and r2: "\<forall>n\<in>set rest. tag_id (cat_tags c') n \<noteq> None"
    and n2: "(\<forall>n\<in>set rest. tag_id (cat_tags c1) n \<noteq> None) \<longrightarrow> new2 = []"
    and f2: "scene_tags c' = scene_tags c1" "image_tags c' = image_tags c1"
            "scene_markers c' = scene_markers c1"
    by blast
  from i1 t2 have i2: "tag_id (cat_tags c') n = Some i" by (simp add: tag_id_append)
  have run: "createTags no_faults (n # rest) acc c
               = (acc @ map (\<lambda>n. the (tag_id (cat_tags c') n)) (n # rest), c')"
    using s1 s2 i2 by simp
  have ext: "cat_tags c' = cat_tags c @ (new1 @ new2)" using t1 t2 by simp
  have res: "\<forall>m\<in>set (n # rest). tag_id (cat_tags c') m \<noteq> None" using i2 r2 by simp
  have nonew: "(\<forall>m\<in>set (n # rest). tag_id (cat_tags c) m \<noteq> None) \<longrightarrow> new1 @ new2 = []"
  proof
    assume a: "\<forall>m\<in>set (n # rest). tag_id (cat_tags c) m \<noteq> None"
    with n1 have e1: "new1 = []" by simp
    with t1 a have "\<forall>m\<in>set rest. tag_id (cat_tags c1) m \<noteq> None" by simp
    with n2 e1 show "new1 @ new2 = []" by simp
  qed
  from run ext res nonew f1 f2 show ?case by (intro exI[of _ "new1 @ new2"] exI[of _ c']) simp
qed

lemma markerTagIds_nf:
  "markerTagIds no_faults names acc c = (ids, c') \<Longrightarrow> ids = acc @ resolved_ids (cat_tags c) names"
proof (induction names arbitrary: acc c)
  case Nil
  then show ?case by (simp add: resolved_ids_def)
next
  case (Cons n rest)
  let ?c1 = "c\<lparr>requests := requests c @ [FindTag n]\<rparr>"
  show ?case
  proof (cases "find (\<lambda>t. snd t = n) (cat_tags c)")
    case None
    with Cons.prems have "markerTagIds no_faults rest acc ?c1 = (ids, c')"
      by (simp add: getTagByName_nf)
    from Cons.IH[OF this] None show ?thesis by (simp add: resolved_ids_def)
  next
    case (Some t)
    with Cons.prems have "markerTagIds no_faults rest (acc @ [fst t]) ?c1 = (ids, c')"
      by (simp add: getTagByName_nf)
    from Cons.IH[OF this] Some show ?thesis by (simp add: resolved_ids_def)
  qed
qed

lemma createSceneMarker_nf:
  assumes "createSceneMarker no_faults s t secs names c = (e, c')"
  shows "e = None
         \<and> scene_markers c' = add_marker (s, t, secs, resolved_ids (cat_tags c) names) (scene_markers c)"
proof -
  obtain ids c1 where m: "markerTagIds no_faults names [] c = (ids, c1)"
    by (cases "markerTagIds no_faults names [] c")
  from markerTagIds_nf[OF m] have ids: "ids = resolved_ids (cat_tags c) names" by simp
  from markerTagIds_frame[OF m] have sm: "scene_markers c1 = scene_markers c" by simp
  let ?q = "CreateSceneMarker s t secs ids"
  let ?c2 = "c1\<lparr>requests := requests c1 @ [?q]\<rparr>"
  have g: "graphql no_faults ?q c1 = (Inr (fst (perform ?q ?c2)), snd (perform ?q ?c2))"
    by (simp add: graphql_def no_faults_def Let_def split: prod.splits)
  from assms m g have e: "e = None" and c': "c' = snd (perform ?q ?c2)"
    by (simp_all add: createSceneMarker_def)
  show ?thesis
  proof (cases "(s, t, secs) \<in> set (map marker_key (scene_markers c))")
    case True
    then show ?thesis unfolding c' using e sm ids by (simp add: add_marker_def)
  next
    case False
    then show ?thesis unfolding c' using e sm ids by (simp add: add_marker_def)
  qed
qed

lemma createMarkers_nf:
  "createMarkers no_faults s ms c = (e, c')
     \<Longrightarrow> e = None
         \<and> scene_markers c' = fold add_marker (marker_entries s (cat_tags c) ms) (scene_markers c)"
proof (induction ms arbitrary: c)
  case Nil
  then show ?case by (simp add: marker_entries_def)
next
  case (Cons m rest)
  obtain e1 c1 where g: "createSceneMarker no_faults s (title m) (seconds m) (marker_tags m) c = (e1, c1)"
    by (cases "createSceneMarker no_faults s (title m) (seconds m) (marker_tags m) c")
  from createSceneMarker_nf[OF g] have e1: "e1 = None"
    and m1: "scene_markers c1
               = add_marker (s, title m, seconds m, resolved_ids (cat_tags c) (marker_tags m))
                   (scene_markers c)"
    by simp_all
  from createSceneMarker_frame(1)[OF g] have t1: "cat_tags c1 = cat_tags c" by (simp add: same_tags_def)
  from Cons.prems g e1 have "createMarkers no_faults s rest c1 = (e, c')" by simp
  from Cons.IH[OF this] m1 t1 show ?case by (simp add: marker_entries_def)
qed

lemma applyMarkers_nf:
  assumes "applyMarkers no_faults itemId type result c = (e, c')"
  shows "e = None \<and> same_tags c c'
         \<and> scene_markers c' =
             (if type = Scenes
              then fold add_marker (marker_entries itemId (cat_tags c) (markers result)) (scene_markers c)
              else scene_markers c)"
proof (cases "type = Scenes \<and> markers result \<noteq> []")
  case True
  with assms have cm: "createMarkers no_faults itemId (markers result) c = (e, c')"
    by (simp add: applyMarkers_def)
  from createMarkers_nf[OF cm] createMarkers_frame[OF cm] True show ?thesis by simp
next
  case False
  with assms have "e = None" "c' = c" by (auto simp: applyMarkers_def)
  with False show ?thesis by (auto simp: same_tags_refl marker_entries_def)
qed

lemma applyTags_nf:
  "\<exists>new c'. applyTags no_faults itemId type result c = (None, c')
      \<and> cat_tags c' = cat_tags c @ new
      \<and> (\<forall>n\<in>set (tags result). tag_id (cat_tags c') n \<noteq> None)
      \<and> ((\<forall>n\<in>set (tags result). tag_id (cat_tags c) n \<noteq> None) \<longrightarrow> new = [])
      \<and> scene_markers c' = scene_markers c
      \<and> scene_tags c' =
           (if tags result \<noteq> [] \<and> type = Scenes
            then (scene_tags c)(itemId := scene_tags c itemId
                     \<union> (\<lambda>n. the (tag_id (cat_tags c') n)) ` set (tags result))
            else scene_tags c)
      \<and> image_tags c' =
           (if tags result \<noteq> [] \<and> type \<noteq> Scenes
            then (image_tags c)(itemId := image_tags c itemId
                     \<union> (\<lambda>n. the (tag_id (cat_tags c') n)) ` set (tags result))
            else image_tags c)"
proof (cases "tags result = []")
  case True
  then show ?thesis by (simp add: applyTags_def)
next
  case False
  from createTags_nf[of "tags result" "[]" c] obtain new c1 where
    s: "createTags no_faults (tags result) [] c
           = (map (\<lambda>n. the (tag_id (cat_tags c1) n)) (tags result), c1)"
    and t: "cat_tags c1 = cat_tags c @ new"
    and r: "\<forall>n\<in>set (tags result). tag_id (cat_tags c1) n \<noteq> None"
    and n: "(\<forall>n\<in>set (tags result). tag_id (cat_tags c) n \<noteq> None) \<longrightarrow> new = []"
    and f: "scene_tags c1 = scene_tags c" "image_tags c1 = image_tags c"
           "scene_markers c1 = scene_markers c"
    by (metis append_Nil)
  let ?ids = "map (\<lambda>n. the (tag_id (cat_tags c1) n)) (tags result)"
  from False have ne: "?ids \<noteq> []" by simp
  show ?thesis
  proof (cases "type = Scenes")
    case True
    let ?c' = "snd (addTagsToScene no_faults itemId ?ids c1)"
    have a: "addTagsToScene no_faults itemId ?ids c1 = (None, ?c')"
      and c': "cat_tags ?c' = cat_tags c1" "scene_markers ?c' = scene_markers c1"
        "image_tags ?c' = image_tags c1"
        "scene_tags ?c' = (scene_tags c1)(itemId := scene_tags c1 itemId \<union> set ?ids)"
      by (simp_all add: addTagsToScene_def graphql_def no_faults_def Let_def)
    have "applyTags no_faults itemId type result c = (None, ?c')"
      using False True s ne a by (simp add: applyTags_def)
    with t r n f c' True False show ?thesis
      by (intro exI[of _ new] exI[of _ ?c']) simp
  next
    case F2: False
    let ?c' = "snd (addTagsToImage no_faults itemId ?ids c1)"
    have a: "addTagsToImage no_faults itemId ?ids c1 = (None, ?c')"
      and c': "cat_tags ?c' = cat_tags c1" "scene_markers ?c' = scene_markers c1"
        "scene_tags ?c' = scene_tags c1"
        "image_tags ?c' = (image_tags c1)(itemId := image_tags c1 itemId \<union> set ?ids)"
      by (simp_all add: addTagsToImage_def graphql_def no_faults_def Let_def)
    have "applyTags no_faults itemId type result c = (None, ?c')"
      using False F2 s ne a by (simp add: applyTags_def)
    with t r n f c' F2 False show ?thesis
      by (intro exI[of _ new] exI[of _ ?c']) simp
  qed
qed

text \<open>Adding markers that are all there adds nothing.\<close>

lemma add_marker_keys:
  "set (map marker_key (add_marker e ms)) = insert (marker_key e) (set (map marker_key ms))"
  by (simp add: add_marker_def insert_absorb)

lemma fold_add_marker_keys:
  "set (map marker_key (fold add_marker es ms)) = set (map marker_key es) \<union> set (map marker_key ms)"
proof (induction es arbitrary: ms)
  case Nil
  then show ?case by simp
next
  case (Cons e es)
  have "set (map marker_key (fold add_marker (e # es) ms))
          = set (map marker_key es) \<union> set (map marker_key (add_marker e ms))"
    using Cons.IH[of "add_marker e ms"] by simp
  then show ?case unfolding add_marker_keys by auto
qed

lemma fold_add_marker_present:
  "set (map marker_key es) \<subseteq> set (map marker_key ms) \<Longrightarrow> fold add_marker es ms = ms"
  by (induction es) (auto simp: add_marker_def)

lemma marker_entries_keys:
  "map marker_key (marker_entries s ts ms) = map (\<lambda>m. (s, title m, seconds m)) ms"
  by (simp add: marker_entries_def)

lemma applyResultsToStash_nf:
  "\<exists>ca c'. applyTags no_faults itemId type result c = (None, ca)
      \<and> applyMarkers no_faults itemId type result ca = (None, c')
      \<and> applyResultsToStash no_faults itemId type result c = (None, c')"
proof -
  from applyTags_nf[of itemId type result c] obtain ca where
    a: "applyTags no_faults itemId type result c = (None, ca)" by blast
  obtain e c' where m: "applyMarkers no_faults itemId type result ca = (e, c')"
    by (cases "applyMarkers no_faults itemId type result ca")
  from applyMarkers_nf[OF m] have "e = None" by simp
  with a m show ?thesis by (simp add: applyResultsToStash_def)
qed

lemma applyResultsToStash_twice_nf:
  assumes "c1 = snd (applyResultsToStash no_faults itemId type result c0)"
    and "c2 = snd (applyResultsToStash no_faults itemId type result c1)"
  shows "fst (applyResultsToStash no_faults itemId type result c0) = None
         \<and> fst (applyResultsToStash no_faults itemId type result c1) = None
         \<and> (\<forall>n\<in>set (tags result). tag_id (cat_tags c1) n \<noteq> None)
         \<and> scene_markers c1 =
             (if type = Scenes
              then fold add_marker (marker_entries itemId (cat_tags c1) (markers result))
                     (scene_markers c0)
              else scene_markers c0)
         \<and> same_tags c1 c2
         \<and> scene_markers c2 = scene_markers c1"
proof -
  let ?ids = "\<lambda>c. (\<lambda>n. the (tag_id (cat_tags c) n)) ` set (tags result)"
  let ?E = "\<lambda>c. marker_entries itemId (cat_tags c) (markers result)"
  \<comment> \<open>first application\<close>
  from applyTags_nf[of itemId type result c0] obtain new ca where
    a1: "applyTags no_faults itemId type result c0 = (None, ca)"
    and r1: "\<forall>n\<in>set (tags result). tag_id (cat_tags ca) n \<noteq> None"
    and k1: "scene_markers ca = scene_markers c0"
    and s1: "scene_tags ca =
           (if tags result \<noteq> [] \<and> type = Scenes
            then (scene_tags c0)(itemId := scene_tags c0 itemId \<union> ?ids ca)
            else scene_tags c0)"
    and i1: "image_tags ca =
           (if tags result \<noteq> [] \<and> type \<noteq> Scenes
            then (image_tags c0)(itemId := image_tags c0 itemId \<union> ?ids ca)
            else image_tags c0)"
    by blast
  obtain e1 cx where m1: "applyMarkers no_faults itemId type result ca = (e1, cx)"
    by (cases "applyMarkers no_faults itemId type result ca")
  from applyMarkers_nf[OF m1] have e1: "e1 = None" and f1: "same_tags ca cx"
    and mk1: "scene_markers cx =
                (if type = Scenes then fold add_marker (?E ca) (scene_markers ca)
                 else scene_markers ca)"
    by simp_all
  from a1 m1 e1 have ap1: "applyResultsToStash no_faults itemId type result c0 = (None, cx)"
    by (simp add: applyResultsToStash_def)
  with assms(1) have cx: "cx = c1" by simp
  from f1 have t1: "cat_tags c1 = cat_tags ca" "scene_tags c1 = scene_tags ca"
    "image_tags c1 = image_tags ca"
    unfolding cx by (simp_all add: same_tags_def)
  \<comment> \<open>second application\<close>
  from applyTags_nf[of itemId type result c1] obtain new2 cb where
    a2: "applyTags no_faults itemId type result c1 = (None, cb)"
    and t2: "cat_tags cb = cat_tags c1 @ new2"
    and n2: "(\<forall>n\<in>set (tags result). tag_id (cat_tags c1) n \<noteq> None) \<longrightarrow> new2 = []"
    and k2: "scene_markers cb = scene_markers c1"
    and s2: "scene_tags cb =
           (if tags result \<noteq> [] \<and> type = Scenes
            then (scene_tags c1)(itemId := scene_tags c1 itemId \<union> ?ids cb)
            else scene_tags c1)"
    and i2: "image_tags cb =
           (if tags result \<noteq> [] \<and> type \<noteq> Scenes
            then (image_tags c1)(itemId := image_tags c1 itemId \<union> ?ids cb)
            else image_tags c1)"
    by blast
  from r1 t1(1) have r1': "\<forall>n\<in>set (tags result). tag_id (cat_tags c1) n \<noteq> None" by simp
  with n2 t2 have tb: "cat_tags cb = cat_tags c1" by simp
  then have ids: "?ids cb = ?ids ca" using t1(1) by simp
  have sb: "scene_tags cb = scene_tags c1"
    unfolding s2 ids t1(2) s1 by (auto simp: fun_eq_iff)
  have ib: "image_tags cb = image_tags c1"
    unfolding i2 ids t1(3) i1 by (auto simp: fun_eq_iff)
  obtain e2 cy where m2: "applyMarkers no_faults itemId type result cb = (e2, cy)"
    by (cases "applyMarkers no_faults itemId type result cb")
  from applyMarkers_nf[OF m2] have e2: "e2 = None" and f2: "same_tags cb cy"
    and mk2: "scene_markers cy =
                (if type = Scenes then fold add_marker (?E cb) (scene_markers cb)
                 else scene_markers cb)"
    by simp_all
  from a2 m2 e2 have ap2: "applyResultsToStash no_faults itemId type result c1 = (None, cy)"
    by (simp add: applyResultsToStash_def)
  with assms(2) have cy: "cy = c2" by simp
  have same: "same_tags c1 c2"
    using f2 tb sb ib unfolding cy by (simp add: same_tags_def)
  have mA: "scene_markers c1 =
              (if type = Scenes then fold add_marker (?E c1) (scene_markers c0)
               else scene_markers c0)"
    using mk1 k1 t1(1) unfolding cx by simp
  have mB: "scene_markers c2 =
              (if type = Scenes then fold add_marker (?E c1) (scene_markers c1)
               else scene_markers c1)"
    using mk2 k2 tb unfolding cy by simp
  have mC: "scene_markers c2 = scene_markers c1"
  proof (cases "type = Scenes")
    case True
    with mA have "set (map marker_key (?E c1)) \<subseteq> set (map marker_key (scene_markers c1))"
      using fold_add_marker_keys[of "?E c1" "scene_markers c0"] by simp
    from fold_add_marker_present[OF this] mB True show ?thesis by simp
  next
    case False
    with mB show ?thesis by simp
  qed
  from ap1 ap2 same r1' mA mC show ?thesis by simp
qed

text \<open>
  Claim C7. Applying the same successful outcome twice creates no duplicate in the catalog,
  whichever requests the catalog rejects on the way: each application leaves the catalog of
  before with tags and markers added at the end, no added tag bearing a name that is already
  there and no added marker having the scene, title and offset of one that is already there.
  Resolve-or-create on a name that the catalog holds adds no tag and returns either nothing
  or the id of the existing tag, and it returns that id whenever the lookup is answered. On
  a catalog that rejects nothing both applications succeed, the first resolves every tag
  name of the outcome and stores each of its markers once, and the second changes neither
  the tags, nor the attachments, nor the markers.
\<close>

theorem reapplying_result_creates_no_duplicate:
  assumes "c1 = snd (applyResultsToStash faulty itemId type result c0)"
    and "c2 = snd (applyResultsToStash faulty itemId type result c1)"
  shows "extends_without_duplicates c0 c1
         \<and> extends_without_duplicates c1 c2
         \<and> (\<forall>c n j. tag_id (cat_tags c) n = Some j \<longrightarrow>
               cat_tags (snd (createTagIfNotExists faulty n c)) = cat_tags c
               \<and> (fst (createTagIfNotExists faulty n c) = None
                  \<or> fst (createTagIfNotExists faulty n c) = Some j)
               \<and> (faulty (requests c) (FindTag n) = None \<longrightarrow>
                    fst (createTagIfNotExists faulty n c) = Some j))
         \<and> (faulty = no_faults \<longrightarrow>
               fst (applyResultsToStash faulty itemId type result c0) = None
               \<and> fst (applyResultsToStash faulty itemId type result c1) = None
               \<and> (\<forall>n\<in>set (tags result). tag_id (cat_tags c1) n \<noteq> None)
               \<and> scene_markers c1 =
                   (if type = Scenes
                    then fold add_marker (marker_entries itemId (cat_tags c1) (markers result))
                           (scene_markers c0)
                    else scene_markers c0)
               \<and> same_tags c1 c2
               \<and> scene_markers c2 = scene_markers c1)"
proof -
  have e1: "extends_without_duplicates c0 c1"
    unfolding assms(1) by (rule applyResultsToStash_extends[OF surjective_pairing])
  have e2: "extends_without_duplicates c1 c2"
    unfolding assms(2) by (rule applyResultsToStash_extends[OF surjective_pairing])
  have r: "cat_tags (snd (createTagIfNotExists faulty n c)) = cat_tags c
           \<and> (fst (createTagIfNotExists faulty n c) = None
              \<or> fst (createTagIfNotExists faulty n c) = Some j)
           \<and> (faulty (requests c) (FindTag n) = None \<longrightarrow>
                fst (createTagIfNotExists faulty n c) = Some j)"
    if "tag_id (cat_tags c) n = Some j" for c :: catalog and n j
    using createTagIfNotExists_existing[OF that surjective_pairing, of faulty] by simp
  have d: "fst (applyResultsToStash faulty itemId type result c0) = None
           \<and> fst (applyResultsToStash faulty itemId type result c1) = None
           \<and> (\<forall>n\<in>set (tags result). tag_id (cat_tags c1) n \<noteq> None)
           \<and> scene_markers c1 =
               (if type = Scenes
                then fold add_marker (marker_entries itemId (cat_tags c1) (markers result))
                       (scene_markers c0)
                else scene_markers c0)
           \<and> same_tags c1 c2
           \<and> scene_markers c2 = scene_markers c1"
    if nf: "faulty = no_faults"
    using applyResultsToStash_twice_nf[OF assms[unfolded nf]] unfolding nf .
  from e1 e2 r d show ?thesis by blast
qed

theorem reapplying_result_creates_no_duplicate_witness:
  "extends_without_duplicates empty_catalog
     (snd (applyResultsToStash no_faults ''s1'' Scenes two_tags_one_marker empty_catalog))
   \<and> extends_without_duplicates
       (snd (applyResultsToStash no_faults ''s1'' Scenes two_tags_one_marker empty_catalog))
       (snd (applyResultsToStash no_faults ''s1'' Scenes two_tags_one_marker
              (snd (applyResultsToStash no_faults ''s1'' Scenes two_tags_one_marker empty_catalog))))
   \<and> fst (applyResultsToStash no_faults ''s1'' Scenes two_tags_one_marker empty_catalog) = None
   \<and> fst (applyResultsToStash no_faults ''s1'' Scenes two_tags_one_marker
            (snd (applyResultsToStash no_faults ''s1'' Scenes two_tags_one_marker empty_catalog)))
       = None
   \<and> same_tags
       (snd (applyResultsToStash no_faults ''s1'' Scenes two_tags_one_marker empty_catalog))
       (snd (applyResultsToStash no_faults ''s1'' Scenes two_tags_one_marker
              (snd (applyResultsToStash no_faults ''s1'' Scenes two_tags_one_marker empty_catalog))))
   \<and> scene_markers
       (snd (applyResultsToStash no_faults ''s1'' Scenes two_tags_one_marker
              (snd (applyResultsToStash no_faults ''s1'' Scenes two_tags_one_marker empty_catalog))))
     = scene_markers
         (snd (applyResultsToStash no_faults ''s1'' Scenes two_tags_one_marker empty_catalog))
   \<and> tag_id
       (cat_tags (snd (applyResultsToStash no_faults ''s1'' Scenes two_tags_one_marker empty_catalog)))
       ''b'' = Some 2
   \<and> fst (createTagIfNotExists no_faults ''b''
            (snd (applyResultsToStash no_faults ''s1'' Scenes two_tags_one_marker empty_catalog)))
       = Some 2
   \<and> cat_tags (snd (createTagIfNotExists no_faults ''b''
            (snd (applyResultsToStash no_faults ''s1'' Scenes two_tags_one_marker empty_catalog))))
       = cat_tags (snd (applyResultsToStash no_faults ''s1'' Scenes two_tags_one_marker empty_catalog))"
proof -
  let ?c1 = "snd (applyResultsToStash no_faults ''s1'' Scenes two_tags_one_marker empty_catalog)"
  have t: "tag_id (cat_tags ?c1) ''b'' = Some 2"
    by (simp add: applyResultsToStash_def applyTags_def applyMarkers_def createSceneMarker_def
        createTagIfNotExists_def getTagByName_def graphql_def addTagsToScene_def no_faults_def
        two_tags_one_marker_def empty_catalog_def Let_def tag_id_def)
  have f: "no_faults (requests ?c1) (FindTag ''b'') = None" by (simp add: no_faults_def)
  from t f reapplying_result_creates_no_duplicate[of _ no_faults "''s1''" Scenes
      two_tags_one_marker empty_catalog _, OF refl refl]
  show ?thesis by blast
qed

text \<open>
  The second application is not idle: on a catalog that rejects nothing, two applications of
  an outcome with two tags and one marker send the marker creation twice, and the catalog
  holds that marker once and each tag once.
\<close>

lemma reapplied_marker_is_sent_twice_and_stored_once:
  "scene_markers
     (snd (applyResultsToStash no_faults ''s1'' Scenes two_tags_one_marker
            (snd (applyResultsToStash no_faults ''s1'' Scenes two_tags_one_marker empty_catalog))))
     = [(''s1'', ''intro'', 5, [1])]
   \<and> cat_tags
     (snd (applyResultsToStash no_faults ''s1'' Scenes two_tags_one_marker
            (snd (applyResultsToStash no_faults ''s1'' Scenes two_tags_one_marker empty_catalog))))
     = [(1, ''a''), (2, ''b'')]
   \<and> filter is_marker_create (requests
     (snd (applyResultsToStash no_faults ''s1'' Scenes two_tags_one_marker
            (snd (applyResultsToStash no_faults ''s1'' Scenes two_tags_one_marker empty_catalog)))))
     = [CreateSceneMarker ''s1'' ''intro'' 5 [1], CreateSceneMarker ''s1'' ''intro'' 5 [1]]"
  by (simp add: applyResultsToStash_def applyTags_def applyMarkers_def createSceneMarker_def
      createTagIfNotExists_def getTagByName_def graphql_def addTagsToScene_def no_faults_def
      two_tags_one_marker_def empty_catalog_def Let_def)

section \<open>Properties of a batch with one failing item\<close>

lemma runBatch_const:
  assumes "\<forall>i\<in>set batch. \<forall>w. fst (pitem i type w) = out i"
  shows "fst (runBatch pitem type batch w)
           = map (\<lambda>i. case out i of Inr res \<Rightarrow> Succeeded i res | Inl msg \<Rightarrow> Failed i msg) batch"
  using assms
proof (induction batch arbitrary: w)
  case Nil
  then show ?case by simp
next
  case (Cons i rest)
  obtain r w1 where p: "pitem i type w = (r, w1)" by (cases "pitem i type w")
  with Cons.prems have r: "r = out i" by (metis fst_conv list.set_intros(1))
  obtain os w2 where rb: "runBatch pitem type rest w1 = (os, w2)"
    by (cases "runBatch pitem type rest w1")
  from Cons.IH[of w1] Cons.prems rb
  have "os = map (\<lambda>i. case out i of Inr res \<Rightarrow> Succeeded i res | Inl msg \<Rightarrow> Failed i msg) rest"
    by simp
  with p r rb show ?case by simp
qed

lemma processBatches_const:
  assumes "processBatches pitem cancelReq None type k batches w st = (sts, evs, w')"
    and "\<forall>i\<in>set (concat batches). \<forall>w. fst (pitem i type w) = out i"
  shows "results (last (st # sts)) = results st
           @ filter success (map (\<lambda>i. case out i of Inr res \<Rightarrow> Succeeded i res | Inl msg \<Rightarrow> Failed i msg)
                               (concat batches))
         \<and> errors (last (st # sts)) = errors st
           @ filter (\<lambda>r. \<not> success r)
               (map (\<lambda>i. case out i of Inr res \<Rightarrow> Succeeded i res | Inl msg \<Rightarrow> Failed i msg)
                  (concat batches))"
  using assms
proof (induction batches arbitrary: k w st sts evs w')
  case Nil
  then show ?case by simp
next
  case (Cons batch rest)
  let ?mk = "\<lambda>i. case out i of Inr res \<Rightarrow> Succeeded i res | Inl msg \<Rightarrow> Failed i msg"
  obtain rs w1 where rb: "runBatch pitem type batch w = (rs, w1)" by (cases "runBatch pitem type batch w")
  obtain sts2 evs2 w3 where rec:
    "processBatches pitem cancelReq None type (Suc k) rest w1 (recordBatch rs st) = (sts2, evs2, w3)"
    using prod_cases3 by blast
  from Cons.prems(1) rb rec have sts: "sts = recordBatch rs st # sts2" by simp
  from Cons.prems(2) have b: "\<forall>i\<in>set batch. \<forall>w. fst (pitem i type w) = out i"
    and r: "\<forall>i\<in>set (concat rest). \<forall>w. fst (pitem i type w) = out i" by simp_all
  from runBatch_const[of "batch" "pitem" "type" "out" "w", OF b] rb have rs: "rs = map ?mk batch"
    by simp
  let ?st2 = "recordBatch rs st"
  have la: "last (st # sts) = last (?st2 # sts2)" unfolding sts by simp
  have r2: "results ?st2 = results st @ filter success (map ?mk batch)"
    and e2: "errors ?st2 = errors st @ filter (\<lambda>r. \<not> success r) (map ?mk batch)"
    unfolding rs by (simp_all add: recordBatch_def Let_def)
  from Cons.IH[OF rec r]
  have ih1: "results (last (?st2 # sts2)) = results ?st2 @ filter success (map ?mk (concat rest))"
    and ih2: "errors (last (?st2 # sts2)) = errors ?st2 @ filter (\<lambda>r. \<not> success r) (map ?mk (concat rest))"
    by blast+
  have "results (last (st # sts)) = results st @ filter success (map ?mk (concat (batch # rest)))"
    unfolding la ih1 r2 by simp
  moreover have "errors (last (st # sts)) = errors st
      @ filter (\<lambda>r. \<not> success r) (map ?mk (concat (batch # rest)))"
    unfolding la ih2 e2 by simp
  ultimately show ?case by blast
qed

lemma processBatches_progress_lengths:
  assumes "processBatches pitem cancelReq None type k batches w st = (sts, evs, w')"
  shows "completed (progress (last (st # sts))) + length (results st)
           = completed (progress st) + length (results (last (st # sts)))
         \<and> failed (progress (last (st # sts))) + length (errors st)
           = failed (progress st) + length (errors (last (st # sts)))"
  using assms
proof (induction batches arbitrary: k w st sts evs w')
  case Nil
  then show ?case by simp
next
  case (Cons batch rest)
  obtain rs w1 where rb: "runBatch pitem type batch w = (rs, w1)" by (cases "runBatch pitem type batch w")
  obtain sts2 evs2 w3 where rec:
    "processBatches pitem cancelReq None type (Suc k) rest w1 (recordBatch rs st) = (sts2, evs2, w3)"
    using prod_cases3 by blast
  from Cons.prems(1) rb rec have sts: "sts = recordBatch rs st # sts2" by simp
  let ?st2 = "recordBatch rs st"
  have la: "last (st # sts) = last (?st2 # sts2)" unfolding sts by simp
  have c2: "completed (progress ?st2) + length (results st) = completed (progress st) + length (results ?st2)"
    and f2: "failed (progress ?st2) + length (errors st) = failed (progress st) + length (errors ?st2)"
    by (simp_all add: recordBatch_def Let_def)
  from Cons.IH[OF rec] c2 f2 show ?case unfolding la by linarith
qed

lemma filter_eq_single: "distinct xs \<Longrightarrow> x \<in> set xs \<Longrightarrow> filter (\<lambda>i. i = x) xs = [x]"
  by (induction xs) (auto simp: filter_empty_conv)

lemma length_filter_neq_single:
  "distinct xs \<Longrightarrow> x \<in> set xs \<Longrightarrow> length (filter (\<lambda>i. i \<noteq> x) xs) = length xs - 1"
proof -
  assume d: "distinct xs" and m: "x \<in> set xs"
  have "length (filter (\<lambda>i. i = x) xs) + length (filter (\<lambda>i. \<not> i = x) xs) = length xs"
    by (rule sum_length_filter_compl)
  with filter_eq_single[OF d m] show ?thesis by simp
qed

lemma toString_500: "toString 500 = ''500''"
  by (simp add: toString.simps)

text \<open>
  Claim C2, as amended. Given a batch (no Cancel clicked, connection valid, concurrency at
  least 1) in which the container answers HTTP 500 to every processing request for item
  \<open>x\<close> and 2xx for every other selected item, and the catalog rejects nothing, the final
  report holds exactly the outcomes of \<open>x\<close> as failures and every other item as a
  success; a failure entry carries the item id and the message \<open>HTTP 500: <status text>\<close>
  and nothing else. When \<open>x\<close> is selected once, \<open>failed = 1\<close> and
  \<open>completed = total - 1\<close>.
\<close>

theorem only_the_500_item_fails:
  assumes "selectedItems st \<noteq> []"
    and "concurrency_setting \<noteq> Some 0"
    and "fst (validate w) = None"
    and "\<forall>hist. \<exists>body. container hist (process_request (itype st) x) = HttpReply 500 text body"
    and "\<forall>hist. \<forall>i\<in>set (selectedItems st). i \<noteq> x \<longrightarrow>
           (\<exists>s txt. 200 \<le> s \<and> s \<le> 299
              \<and> container hist (process_request (itype st) i) = HttpReply s txt (ok_body i))"
  shows "\<exists>sts evs w'.
           startProcessing validate (processItem container timeout no_faults rnd) cancelReq None
             concurrency_setting w st = Some (Ran sts evs w')
         \<and> errors (last sts)
             = map (\<lambda>i. Failed i (''HTTP 500: '' @ text)) (filter (\<lambda>i. i = x) (selectedItems st))
         \<and> results (last sts)
             = map (\<lambda>i. Succeeded i (ok_body i)) (filter (\<lambda>i. i \<noteq> x) (selectedItems st))
         \<and> failed (progress (last sts)) = length (errors (last sts))
         \<and> completed (progress (last sts)) = length (results (last sts))
         \<and> (distinct (selectedItems st) \<and> x \<in> set (selectedItems st) \<longrightarrow>
               errors (last sts) = [Failed x (''HTTP 500: '' @ text)]
               \<and> failed (progress (last sts)) = 1
               \<and> completed (progress (last sts)) = length (selectedItems st) - 1)"
proof -
  define items where "items = selectedItems st"
  define type where "type = itype st"
  define pitem where "pitem = processItem container timeout no_faults rnd"
  define out :: "string \<Rightarrow> string + analysis"
    where "out = (\<lambda>i. if i = x then Inl (''HTTP 500: '' @ text) else Inr (ok_body i))"
  let ?mk = "\<lambda>i. case out i of Inr res \<Rightarrow> Succeeded i res | Inl msg \<Rightarrow> Failed i msg"
  have outs: "\<forall>i\<in>set items. \<forall>w. fst (pitem i type w) = out i"
  proof (intro ballI allI)
    fix i w0 assume i: "i \<in> set items"
    show "fst (pitem i type w0) = out i"
    proof (cases "i = x")
      case True
      from assms(4) obtain body where
        "container (container_log w0) (process_request type x) = HttpReply 500 text body"
        unfolding type_def by blast
      from processItem_http_error[of "container" "w0" "type" "x" "500" "text" "body" "timeout"
          "no_faults" "rnd", OF this] True show ?thesis
        by (simp add: pitem_def out_def toString_500)
    next
      case False
      with assms(5) i obtain s tx where s: "200 \<le> s \<and> s \<le> 299"
        and c: "container (container_log w0) (process_request type i) = HttpReply s tx (ok_body i)"
        unfolding items_def type_def by blast
      from applyResultsToStash_nf[of i type "ok_body i" "catalog w0"] obtain c' where
        "applyResultsToStash no_faults i type (ok_body i) (catalog w0) = (None, c')" by blast
      with processItem_ok[of "container" "w0" "type" "i" "s" "tx" "ok_body i" "timeout"
          "no_faults" "rnd", OF c s] False show ?thesis
        by (simp add: pitem_def out_def)
    qed
  qed
  define c where "c = (case concurrency_setting of None \<Rightarrow> 4 | Some c \<Rightarrow> c)"
  with assms(2) have c1: "1 \<le> c" by (cases concurrency_setting) auto
  obtain w1 where v: "validate w = (None, w1)" using assms(3) by (cases "validate w") auto
  define st0 where "st0 = st\<lparr>processing := True,
      progress := \<lparr>current = 0, total = length (selectedItems st), completed = 0,
                   failed = 0, pstatus = ''processing''\<rparr>,
      results := [], errors := []\<rparr>"
  obtain sts0 evs w2 where pb:
    "processBatches pitem cancelReq None type 0 (chunks c items) w1 st0 = (sts0, evs, w2)"
    using prod_cases3 by blast
  have pi: "processItems pitem cancelReq None concurrency_setting items type w1 st0
              = Some (sts0, evs, w2)"
    using pb c1 by (simp add: processItems_def c_def createBatches_chunks)
  define fin where "fin = (last (st0 # sts0))\<lparr>processing := False\<rparr>"
  define sts where "sts = st0 # sts0 @ [fin]"
  have "startProcessing validate pitem cancelReq None concurrency_setting w st
          = (case processItems pitem cancelReq None concurrency_setting items type w1 st0 of
               None \<Rightarrow> None
             | Some (sts, evs, w2) \<Rightarrow>
                 Some (Ran (st0 # sts @ [(last (st0 # sts))\<lparr>processing := False\<rparr>]) evs w2))"
    using assms(1) v unfolding startProcessing_def st0_def items_def type_def Let_def by simp
  then have run: "startProcessing validate pitem cancelReq None concurrency_setting w st
               = Some (Ran sts evs w2)"
    unfolding pi sts_def fin_def by simp
  have la: "last sts = fin" by (simp add: sts_def)
  have pf: "progress fin = progress (last (st0 # sts0))"
    and rf: "results fin = results (last (st0 # sts0))"
    and ef: "errors fin = errors (last (st0 # sts0))"
    by (simp_all add: fin_def)
  from c1 have cc: "concat (chunks c items) = items" by (rule concat_chunks)
  from outs cc have outs': "\<forall>i\<in>set (concat (chunks c items)). \<forall>w. fst (pitem i type w) = out i"
    by simp
  from processBatches_const[of "pitem" "cancelReq" "type" "0" "chunks c items" "w1" "st0" "sts0"
      "evs" "w2" "out", OF pb outs'] cc
  have res0: "results fin = filter success (map ?mk items)"
    and err0: "errors fin = filter (\<lambda>r. \<not> success r) (map ?mk items)"
    unfolding rf ef by (simp_all add: st0_def)
  have res: "results fin = map (\<lambda>i. Succeeded i (ok_body i)) (filter (\<lambda>i. i \<noteq> x) items)"
    unfolding res0 by (induction items) (auto simp: out_def)
  have err: "errors fin = map (\<lambda>i. Failed i (''HTTP 500: '' @ text)) (filter (\<lambda>i. i = x) items)"
    unfolding err0 by (induction items) (auto simp: out_def)
  from processBatches_progress_lengths[OF pb]
  have cnt: "failed (progress fin) = length (errors fin)"
    "completed (progress fin) = length (results fin)"
    unfolding pf rf ef by (simp_all add: st0_def)
  have single: "errors fin = [Failed x (''HTTP 500: '' @ text)]
               \<and> failed (progress fin) = 1 \<and> completed (progress fin) = length items - 1"
    if "distinct items \<and> x \<in> set items"
    using that cnt unfolding err res
    by (simp add: filter_eq_single length_filter_neq_single)
  from run err res cnt single show ?thesis
    unfolding la[symmetric] items_def pitem_def by blast
qed

theorem only_the_500_item_fails_witness:
  "selectedItems (selected [''1'', ''2'', ''3'', ''4'', ''5''] :: analysis ui_state) \<noteq> []
   \<and> None \<noteq> Some (0::nat)
   \<and> fst (always_valid fresh_world) = None
   \<and> (\<forall>hist. \<exists>body. container_500_on_3 hist
          (process_request (itype (selected [''1'', ''2'', ''3'', ''4'', ''5''] :: analysis ui_state)) ''3'')
        = HttpReply 500 ''Internal Server Error'' body)
   \<and> (\<exists>sts evs w'.
         startProcessing always_valid (processItem container_500_on_3 300 no_faults no_jitter)
           (cancelRequest container_500_on_3 300) None None fresh_world
           (selected [''1'', ''2'', ''3'', ''4'', ''5'']) = Some (Ran sts evs w')
       \<and> errors (last sts) = [Failed ''3'' ''HTTP 500: Internal Server Error'']
       \<and> failed (progress (last sts)) = 1
       \<and> completed (progress (last sts)) = 4)"
proof -
  let ?st = "selected [''1'', ''2'', ''3'', ''4'', ''5''] :: analysis ui_state"
  have h1: "selectedItems ?st \<noteq> []" by (simp add: selected_def)
  have h2: "None \<noteq> Some (0::nat)" by simp
  have h3: "fst (always_valid fresh_world) = None" by (simp add: always_valid_def)
  have h4: "\<forall>hist. \<exists>body. container_500_on_3 hist (process_request (itype ?st) ''3'')
        = HttpReply 500 ''Internal Server Error'' body"
    by (simp add: container_500_on_3_def process_request_def selected_def)
  have h5: "\<forall>hist. \<forall>i\<in>set (selectedItems ?st). i \<noteq> ''3'' \<longrightarrow>
           (\<exists>s txt. 200 \<le> s \<and> s \<le> 299
              \<and> container_500_on_3 hist (process_request (itype ?st) i)
                  = HttpReply s txt ((\<lambda>i. two_tags_one_marker) i))"
    by (simp add: container_500_on_3_def process_request_def selected_def)
  have d: "distinct (selectedItems ?st) \<and> ''3'' \<in> set (selectedItems ?st)"
    by (simp add: selected_def)
  from only_the_500_item_fails[of "?st" None always_valid fresh_world container_500_on_3 "''3''"
      "''Internal Server Error''" "\<lambda>i. two_tags_one_marker" 300 no_jitter
      "cancelRequest container_500_on_3 300", OF h1 h2 h3 h4 h5]
  obtain sts evs w' where
    "startProcessing always_valid (processItem container_500_on_3 300 no_faults no_jitter)
           (cancelRequest container_500_on_3 300) None None fresh_world ?st = Some (Ran sts evs w')"
    "distinct (selectedItems ?st) \<and> ''3'' \<in> set (selectedItems ?st) \<longrightarrow>
               errors (last sts) = [Failed ''3'' (''HTTP 500: '' @ ''Internal Server Error'')]
               \<and> failed (progress (last sts)) = 1
               \<and> completed (progress (last sts)) = length (selectedItems ?st) - 1"
    by blast
  with d have "\<exists>sts evs w'.
         startProcessing always_valid (processItem container_500_on_3 300 no_faults no_jitter)
           (cancelRequest container_500_on_3 300) None None fresh_world ?st = Some (Ran sts evs w')
       \<and> errors (last sts) = [Failed ''3'' ''HTTP 500: Internal Server Error'']
       \<and> failed (progress (last sts)) = 1
       \<and> completed (progress (last sts)) = 4"
    by (auto simp: selected_def)
  with h1 h2 h3 h4 show ?thesis by blast
qed

text \<open>
  The claim as stated fails: with five scenes of which scene 3 always gets HTTP 500, the
  container receives the processing request for scene 3 once, not \<open>maxRetries = 3\<close>
  times (\<open>processScene\<close> turns the error into a value, so \<open>retryRequest\<close> sees no
  failure), and the failure entry is the id with the message, with no source and no
  retryable flag.
\<close>

theorem failing_item_is_called_once:
  "map_option final_errors
     (startProcessing (validateConnection container_500_on_3 300)
        (processItem container_500_on_3 300 no_faults no_jitter)
        (cancelRequest container_500_on_3 300) None None fresh_world
        (selected [''1'', ''2'', ''3'', ''4'', ''5'']))
     = Some [Failed ''3'' ''HTTP 500: Internal Server Error'']
   \<and> map_option (map oid) (map_option final_results
     (startProcessing (validateConnection container_500_on_3 300)
        (processItem container_500_on_3 300 no_faults no_jitter)
        (cancelRequest container_500_on_3 300) None None fresh_world
        (selected [''1'', ''2'', ''3'', ''4'', ''5''])))
     = Some [''1'', ''2'', ''4'', ''5'']
   \<and> map_option (calls_for (ProcessScene ''3''))
     (startProcessing (validateConnection container_500_on_3 300)
        (processItem container_500_on_3 300 no_faults no_jitter)
        (cancelRequest container_500_on_3 300) None None fresh_world
        (selected [''1'', ''2'', ''3'', ''4'', ''5'']))
     = Some 1"
  by (simp add: final_errors_def final_results_def calls_for_def
      startProcessing_def processItems_def createBatches_chunks chunks.simps
      validateConnection_def selected_def recordBatch_def
      processItem_def processSceneWithRetry_def retryRequest_def retryLoop.simps
      processScene_def request_def container_500_on_3_def toString.simps
      applyResultsToStash_def applyTags_def applyMarkers_def createSceneMarker_def
      createTagIfNotExists_def getTagByName_def graphql_def addTagsToScene_def
      no_faults_def two_tags_one_marker_def fresh_world_def empty_catalog_def Let_def)

end
